theory Spec2Isabelle
  imports Complex_Main "HOL-Library.Multiset"
begin

section \<open>Data model of the dashboard (src/app/page.tsx)\<close>

text \<open>
  The interface \<open>Attempt\<close> of page.tsx. \<open>createdAt\<close> is kept as the number that
  \<open>new Date(createdAt).getTime()\<close> yields, the only way the code compares it (a string that is
  no date, whose time is \<open>NaN\<close>, is not modelled); \<open>messageId\<close>, \<open>failureReason\<close> and
  \<open>resultBody\<close> may be absent in the decoded JSON (the code guards them with
  \<open>!attempt.messageId\<close> and \<open>?.\<close>), hence options. The fields \<open>projectId\<close>, \<open>inProgress\<close>,
  \<open>duration\<close> and \<open>updatedAt\<close> are never read by the aggregation and are left out. A
  \<open>string\<close> stands for a JavaScript string, one \<open>char\<close> for one of its code units.
\<close>

record Attempt =
  attemptId :: string
  createdAt :: int
  attemptMessageId :: "string option"
  attemptHookId :: string
  isFailure :: bool
  failureReason :: "string option"
  resultCode :: int
  resultBody :: "string option"

text \<open>
  The interface \<open>ProcessedMessage\<close>: one aggregate per message. \<open>oldestAttempt\<close> and
  \<open>newestAttempt\<close> are times like \<open>createdAt\<close>; \<open>successRate\<close> is the exact quotient, the
  rounding of the JavaScript number is not modelled; an absent \<open>documentId\<close> or
  \<open>largePayloadFailure\<close> (\<open>undefined\<close>) and a \<open>null\<close> \<open>latestFailure\<close> or \<open>parsingError\<close> are
  \<open>None\<close>.
\<close>

record ProcessedMessage =
  messageId :: string
  oldestAttempt :: int
  newestAttempt :: int
  attemptCount :: nat
  successRate :: rat
  hookId :: string
  documentId :: "string option"
  attempts :: "Attempt list"
  latestFailure :: "Attempt option"
  parsingError :: "string option"
  largePayloadFailure :: "bool option"

text \<open>The interface \<open>MessageWithError\<close>.\<close>

record MessageWithError =
  errId :: string
  errError :: string
  errPayload :: "string option"

section \<open>JavaScript \<open>Map\<close>: keys in insertion order\<close>

type_synonym ('k, 'v) jsmap = "('k \<times> 'v) list"

fun Map_get :: "('k, 'v) jsmap \<Rightarrow> 'k \<Rightarrow> 'v option" where
  "Map_get [] k = None"
| "Map_get ((k', v) # m) k = (if k' = k then Some v else Map_get m k)"

definition Map_has :: "('k, 'v) jsmap \<Rightarrow> 'k \<Rightarrow> bool" where
  "Map_has m k = (Map_get m k \<noteq> None)"

text \<open>\<open>set\<close> overwrites the value of a key in place and appends a new key at the end.\<close>

fun Map_set :: "('k, 'v) jsmap \<Rightarrow> 'k \<Rightarrow> 'v \<Rightarrow> ('k, 'v) jsmap" where
  "Map_set [] k v = [(k, v)]"
| "Map_set ((k', v') # m) k v =
     (if k' = k then (k, v) # m else (k', v') # Map_set m k v)"

definition Map_values :: "('k, 'v) jsmap \<Rightarrow> 'v list" where
  "Map_values m = map snd m"

definition Map_keys :: "('k, 'v) jsmap \<Rightarrow> 'k list" where
  "Map_keys m = map fst m"

section \<open>Strings\<close>

text \<open>
  \<open>toLowerCase\<close> on the letters A to Z; the two texts the code searches for are lower-case
  ASCII, and no other character is lowered to a letter sequence of theirs.
\<close>

definition toLowerCase :: "string \<Rightarrow> string" where
  "toLowerCase s =
     map (\<lambda>c. let n = (of_char c :: nat) in
                if 65 \<le> n \<and> n \<le> 90 then char_of (n + 32) else c) s"

fun includes_str :: "string \<Rightarrow> string \<Rightarrow> bool" where
  "includes_str [] sub = (sub = [])"
| "includes_str (c # cs) sub = (take (length sub) (c # cs) = sub \<or> includes_str cs sub)"

section \<open>processApiData: grouping and derivation (page.tsx 354-449)\<close>

text \<open>Lines 360-364: the error map, later entries overwriting earlier ones.\<close>

definition errorMap_of :: "MessageWithError list \<Rightarrow> (string, string) jsmap" where
  "errorMap_of messagesWithErrors =
     fold (\<lambda>item m. Map_set m (errId item) (errError item)) messagesWithErrors []"

text \<open>
  Lines 373-382: one step of the grouping loop. An attempt whose \<open>messageId\<close> is falsy
  (absent or the empty string) is skipped.
\<close>

definition groupAttempt :: "Attempt \<Rightarrow> (string, Attempt list) jsmap \<Rightarrow> (string, Attempt list) jsmap" where
  "groupAttempt attempt messageMap =
     (case attemptMessageId attempt of
        None \<Rightarrow> messageMap
      | Some mid \<Rightarrow>
          if mid = [] then messageMap
          else (case Map_get messageMap mid of
                  None \<Rightarrow> Map_set messageMap mid [attempt]
                | Some as \<Rightarrow> Map_set messageMap mid (as @ [attempt])))"

definition messageMap_of :: "Attempt list \<Rightarrow> (string, Attempt list) jsmap" where
  "messageMap_of attempts_in = fold groupAttempt attempts_in []"

text \<open>
  \<open>Array.prototype.sort\<close> is stable; with the comparator \<open>time a - time b\<close> it is the
  stable sort by \<open>createdAt\<close>, and with \<open>time b - time a\<close> on \<open>newestAttempt\<close> the stable
  sort by descending \<open>newestAttempt\<close>.
\<close>

definition sortByCreatedAt :: "Attempt list \<Rightarrow> Attempt list" where
  "sortByCreatedAt as = sort_key createdAt as"

definition sortByNewestDesc :: "ProcessedMessage list \<Rightarrow> ProcessedMessage list" where
  "sortByNewestDesc ms = sort_key (\<lambda>m. - newestAttempt m) ms"

text \<open>Lines 398-400.\<close>

definition successRate_of :: "Attempt list \<Rightarrow> rat" where
  "successRate_of as =
     (of_nat (length (filter (\<lambda>a. \<not> isFailure a) as)) / of_nat (length as)) * 100"

text \<open>Lines 402-407 and 513-517.\<close>

definition latestFailure_of :: "Attempt list \<Rightarrow> Attempt option" where
  "latestFailure_of as =
     (let failedAttempts = filter isFailure as
      in if length failedAttempts > 0 then Some (last failedAttempts) else None)"

text \<open>
  Lines 410-421. \<open>x?.toLowerCase().includes(s)\<close> is \<open>undefined\<close>, hence falsy, when \<open>x\<close> is
  absent; the last operand of the \<open>||\<close> chain is a boolean, so the value is a boolean whenever
  there is a latest failure and \<open>undefined\<close> otherwise.
\<close>

definition optIncludes :: "string option \<Rightarrow> string \<Rightarrow> bool" where
  "optIncludes x s = (case x of None \<Rightarrow> False | Some r \<Rightarrow> includes_str (toLowerCase r) s)"

definition isLargePayloadFailure :: "Attempt option \<Rightarrow> bool option" where
  "isLargePayloadFailure lf =
     (case lf of
        None \<Rightarrow> None
      | Some f \<Rightarrow>
          Some (optIncludes (failureReason f) ''payload too large''
                \<or> optIncludes (failureReason f) ''request entity too large''
                \<or> optIncludes (resultBody f) ''payload too large''
                \<or> resultCode f = 413))"

text \<open>Line 439: \<open>errorMap.get(messageId) || null\<close>; the empty string is falsy.\<close>

definition parsingError_of :: "(string, string) jsmap \<Rightarrow> string \<Rightarrow> string option" where
  "parsingError_of errorMap mid =
     (case Map_get errorMap mid of
        None \<Rightarrow> None
      | Some e \<Rightarrow> if e = [] then None else Some e)"

text \<open>
  Lines 387-442: the body of \<open>messageMap.forEach\<close>. Every group of the map holds at least
  one attempt (lemma \<open>messageMap_of_nonempty\<close>), so \<open>attempts[0]\<close> is defined where the code
  reads it.
\<close>

definition deriveMessage ::
  "(string \<rightharpoonup> string) \<Rightarrow> (string, string) jsmap \<Rightarrow> string \<Rightarrow> Attempt list \<Rightarrow> ProcessedMessage" where
  "deriveMessage messageIdToDocumentId errorMap mid grp =
     (let as = sortByCreatedAt grp;
          lf = latestFailure_of as
      in \<lparr> messageId = mid,
           oldestAttempt = createdAt (hd as),
           newestAttempt = createdAt (last as),
           attemptCount = length as,
           successRate = successRate_of as,
           hookId = attemptHookId (hd as),
           documentId = messageIdToDocumentId mid,
           attempts = as,
           latestFailure = lf,
           parsingError = parsingError_of errorMap mid,
           largePayloadFailure = isLargePayloadFailure lf \<rparr>)"

definition processedMessages_of ::
  "Attempt list \<Rightarrow> (string \<rightharpoonup> string) \<Rightarrow> MessageWithError list \<Rightarrow> ProcessedMessage list" where
  "processedMessages_of attempts_in messageIdToDocumentId messagesWithErrors =
     sortByNewestDesc
       (map (\<lambda>(mid, grp). deriveMessage messageIdToDocumentId (errorMap_of messagesWithErrors) mid grp)
            (messageMap_of attempts_in))"

section \<open>processApiData: the incremental merge (page.tsx 452-541)\<close>

text \<open>Lines 455-463: the ids of every attempt of every existing message.\<close>

definition existingAttemptIds :: "ProcessedMessage list \<Rightarrow> string list" where
  "existingAttemptIds messages = concat (map (\<lambda>msg. map attemptId (attempts msg)) messages)"

text \<open>Lines 454-459 and 469-471: both maps are keyed by \<open>messageId\<close>, in the order of \<open>messages\<close>.\<close>

definition messagesMap_of :: "ProcessedMessage list \<Rightarrow> (string, ProcessedMessage) jsmap" where
  "messagesMap_of messages = fold (\<lambda>msg m. Map_set m (messageId msg) msg) messages []"

text \<open>Lines 496-517: the existing message updated with the combined attempts.\<close>

definition updateMessage :: "ProcessedMessage \<Rightarrow> Attempt list \<Rightarrow> ProcessedMessage" where
  "updateMessage existingMsg newAttempts =
     (let combinedAttempts = sortByCreatedAt (attempts existingMsg @ newAttempts)
      in existingMsg
           \<lparr> attempts := combinedAttempts,
             oldestAttempt := createdAt (hd combinedAttempts),
             newestAttempt := createdAt (last combinedAttempts),
             attemptCount := length combinedAttempts,
             successRate := successRate_of combinedAttempts,
             latestFailure := latestFailure_of combinedAttempts \<rparr>)"

text \<open>
  Lines 474-527: one step of \<open>processedMessages.forEach\<close>. The key of an existing message is
  always in the combined map (lemma \<open>combined_has_existing\<close>), so the non-null assertion of
  line 477 holds and the \<open>None\<close> branch is never taken.
\<close>

definition mergeStep ::
  "ProcessedMessage list \<Rightarrow> ProcessedMessage \<Rightarrow> (string, ProcessedMessage) jsmap \<Rightarrow> (string, ProcessedMessage) jsmap" where
  "mergeStep messages newMsg combinedMessagesMap =
     (if Map_has (messagesMap_of messages) (messageId newMsg) then
        (case Map_get combinedMessagesMap (messageId newMsg) of
           None \<Rightarrow> combinedMessagesMap
         | Some existingMsg \<Rightarrow>
             (let newAttempts =
                    filter (\<lambda>attempt. attemptId attempt \<notin> set (existingAttemptIds messages)) (attempts newMsg)
              in if length newAttempts > 0
                 then Map_set combinedMessagesMap (messageId newMsg) (updateMessage existingMsg newAttempts)
                 else combinedMessagesMap))
      else Map_set combinedMessagesMap (messageId newMsg) newMsg)"

definition mergeMessages :: "ProcessedMessage list \<Rightarrow> ProcessedMessage list \<Rightarrow> ProcessedMessage list" where
  "mergeMessages messages processedMessages =
     sortByNewestDesc
       (Map_values (fold (mergeStep messages) processedMessages (messagesMap_of messages)))"

text \<open>
  The whole function: the state \<open>messages\<close> that the component holds is passed in, and the
  value given to \<open>setMessages\<close> is returned. (The error map that line 365 stores in a second
  piece of state is not part of the result.)
\<close>

definition processApiData ::
  "ProcessedMessage list \<Rightarrow> Attempt list \<Rightarrow> (string \<rightharpoonup> string) \<Rightarrow> MessageWithError list \<Rightarrow> bool
     \<Rightarrow> ProcessedMessage list" where
  "processApiData messages attempts_in messageIdToDocumentId messagesWithErrors isLoadingMoreData =
     (let processedMessages = processedMessages_of attempts_in messageIdToDocumentId messagesWithErrors
      in if isLoadingMoreData \<and> length messages > 0
         then mergeMessages messages processedMessages
         else processedMessages)"

text \<open>
  A session is a sequence of calls, each with its batch, identifier map, error list and
  \<open>isLoadingMoreData\<close> flag, applied to the state in the order received.
\<close>

type_synonym call = "Attempt list \<times> (string \<rightharpoonup> string) \<times> MessageWithError list \<times> bool"

fun runCalls :: "ProcessedMessage list \<Rightarrow> call list \<Rightarrow> ProcessedMessage list" where
  "runCalls messages [] = messages"
| "runCalls messages ((attempts_in, docIds, errs, loadingMore) # calls) =
     runCalls (processApiData messages attempts_in docIds errs loadingMore) calls"

section \<open>Vocabulary for stating properties of the aggregation\<close>

text \<open>The attempts of a batch that the grouping attributes to the message \<open>mid\<close>.\<close>

definition attemptsFor :: "Attempt list \<Rightarrow> string \<Rightarrow> Attempt list" where
  "attemptsFor attempts_in mid =
     (if mid = [] then [] else filter (\<lambda>a. attemptMessageId a = Some mid) attempts_in)"

text \<open>The aggregate of a collection with a given \<open>messageId\<close>, if any.\<close>

definition findMessage :: "ProcessedMessage list \<Rightarrow> string \<Rightarrow> ProcessedMessage option" where
  "findMessage ms mid = find (\<lambda>m. messageId m = mid) ms"

text \<open>The attempts of a new message that line 480 keeps: those whose id no existing message holds.\<close>

definition newAttemptsOf :: "ProcessedMessage list \<Rightarrow> ProcessedMessage \<Rightarrow> Attempt list" where
  "newAttemptsOf messages newMsg =
     filter (\<lambda>attempt. attemptId attempt \<notin> set (existingAttemptIds messages)) (attempts newMsg)"

text \<open>The same, read off the batch: the attempts of the batch for \<open>mid\<close> that are new to the state.\<close>

definition freshAttempts :: "ProcessedMessage list \<Rightarrow> Attempt list \<Rightarrow> string \<Rightarrow> Attempt list" where
  "freshAttempts messages attempts_in mid =
     filter (\<lambda>attempt. attemptId attempt \<notin> set (existingAttemptIds messages))
            (sortByCreatedAt (attemptsFor attempts_in mid))"

text \<open>Every entry of a map of messages is stored under its own \<open>messageId\<close>.\<close>

definition keyed :: "(string, ProcessedMessage) jsmap \<Rightarrow> bool" where
  "keyed M = (\<forall>(k, v) \<in> set M. messageId v = k)"

text \<open>No aggregate holds two attempts with the same id.\<close>

definition noDuplicateAttempts :: "ProcessedMessage list \<Rightarrow> bool" where
  "noDuplicateAttempts messages = (\<forall>m \<in> set messages. distinct (map attemptId (attempts m)))"

text \<open>
  Every aggregate has a non-empty key, and every member attempt carries that key as its
  \<open>messageId\<close>.
\<close>

definition attributed :: "ProcessedMessage list \<Rightarrow> bool" where
  "attributed messages =
     (\<forall>m \<in> set messages. messageId m \<noteq> [] \<and>
         (\<forall>a \<in> set (attempts m). attemptMessageId a = Some (messageId m)))"





text \<open>An attempt for examples: no failure reason, no result body, hook \<open>h\<close>.\<close>

definition exampleAttempt :: "string \<Rightarrow> int \<Rightarrow> string \<Rightarrow> bool \<Rightarrow> int \<Rightarrow> Attempt" where
  "exampleAttempt i t mid failed code =
     \<lparr> attemptId = i, createdAt = t, attemptMessageId = Some mid, attemptHookId = ''h'',
       isFailure = failed, failureReason = None, resultCode = code, resultBody = None \<rparr>"





section \<open>The route handlers (src/app/api/webhook-attempts/route.ts, src/unnamed/part_001)\<close>

text \<open>
  The query parameters of a request as \<open>url.searchParams.get\<close> returns them: absent is
  \<open>None\<close>. \<open>offset\<close> and \<open>limit\<close> are kept as the integer that \<open>parseInt\<close> reads (\<open>None\<close> when
  absent or empty; a parameter that is no number is not modelled), \<open>before\<close> as the time of
  \<open>new Date(before)\<close> (\<open>None\<close> when absent or empty). An hour is 3600000 milliseconds:
  the shifts of \<open>setHours\<close> across a change of daylight-saving time are not modelled.
\<close>

record Request =
  projectId :: "string option"
  webhookId :: "string option"
  offsetParam :: "int option"
  limitParam :: "int option"
  beforeTimestamp :: "int option"

text \<open>A JSON response: an error body with its status, or the body of a 200 response.\<close>

datatype 'a Response = ErrorResponse nat string | OkResponse 'a

record Pagination =
  pgOffset :: int
  pgLimit :: int
  hasMore :: bool
  nextOffset :: "int option"
  totalFetched :: nat
  pages :: nat

record TimeWindow =
  windowStart :: int
  windowEnd :: int
  olderDataAvailable :: bool

record AttemptsBody =
  bodyAttempts :: "Attempt list"
  pagination :: Pagination
  timeWindow :: TimeWindow

text \<open>\<open>!x\<close> on a string that may be absent: true when absent or empty.\<close>

definition falsy :: "'a list option \<Rightarrow> bool" where
  "falsy x = (case x of None \<Rightarrow> True | Some s \<Rightarrow> s = [])"

text \<open>
  \<open>String.prototype.trim\<close> removes the white space and the line terminators of ECMAScript
  from both ends. The token is therefore kept as the list of its UTF-16 code units, each a
  number: tab, line feed, vertical tab, form feed, carriage return, space, no-break space
  (160), U+1680, U+2000 to U+200A, U+2028, U+2029, U+202F, U+205F, U+3000 and U+FEFF are
  stripped.
\<close>

type_synonym codeUnits = "nat list"

definition isWhiteSpace :: "nat \<Rightarrow> bool" where
  "isWhiteSpace u =
     (u \<in> {9, 10, 11, 12, 13, 32, 160, 5760, 8232, 8233, 8239, 8287, 12288, 65279}
      \<or> (8192 \<le> u \<and> u \<le> 8202))"

definition trim :: "codeUnits \<Rightarrow> codeUnits" where
  "trim s = rev (dropWhile isWhiteSpace (rev (dropWhile isWhiteSpace s)))"

text \<open>The code units of a text of the examples.\<close>

definition codeUnitsOf :: "string \<Rightarrow> codeUnits" where
  "codeUnitsOf s = map of_char s"

definition missingParameters :: string where
  "missingParameters = ''Missing required parameters: projectId and webhookId are required''"

definition tokenNotDefined :: string where
  "tokenNotDefined = ''SANITY_API_TOKEN is not defined in environment variables''"

definition hourMs :: int where
  "hourMs = 3600000"

definition MAX_PAGES :: nat where
  "MAX_PAGES = 10"

definition PAGES_TO_FETCH :: nat where
  "PAGES_TO_FETCH = min MAX_PAGES 5"

text \<open>
  The attempts handler (route.ts 9-172). \<open>envToken\<close> is \<open>process.env.SANITY_API_TOKEN\<close>
  (absent, or its code units), \<open>now\<close> the clock, and \<open>upstream limit offset\<close> the outcome of the page request with these
  parameters: \<open>None\<close> when the request fails (network error, non-2xx status or unreadable
  body, all of which the handler turns into an empty page), the records otherwise. The
  second component of the result lists the page requests sent upstream, as
  \<open>(limit, offset)\<close>.
\<close>

definition GET_attempts ::
  "Request \<Rightarrow> codeUnits option \<Rightarrow> int \<Rightarrow> (int \<Rightarrow> int \<Rightarrow> Attempt list option)
     \<Rightarrow> AttemptsBody Response \<times> (int \<times> int) list" where
  "GET_attempts request envToken now upstream =
     (let initialOffset = (case offsetParam request of None \<Rightarrow> 0 | Some n \<Rightarrow> n);
          limit = (case limitParam request of None \<Rightarrow> 50 | Some n \<Rightarrow> min n 50)
      in if falsy (projectId request) \<or> falsy (webhookId request)
         then (ErrorResponse 400 missingParameters, [])
         else
           (let timeWindowEnd = (case beforeTimestamp request of Some b \<Rightarrow> b | None \<Rightarrow> now);
                timeWindowStart = (case beforeTimestamp request of
                                     Some b \<Rightarrow> b - 24 * hourMs | None \<Rightarrow> now - 12 * hourMs)
            in if falsy (map_option trim envToken)
               then (ErrorResponse 500 tokenNotDefined, [])
               else
                 (let offsets = map (\<lambda>i. initialOffset + int i * limit) [0..<PAGES_TO_FETCH];
                      results = map (\<lambda>currentOffset.
                                  case upstream limit currentOffset of
                                    None \<Rightarrow> []
                                  | Some data \<Rightarrow>
                                      filter (\<lambda>attempt. timeWindowStart \<le> createdAt attempt
                                                        \<and> createdAt attempt \<le> timeWindowEnd) data)
                                offsets;
                      allAttempts = sort_key (\<lambda>a. - createdAt a) (concat results);
                      reachedMax = (length offsets \<ge> MAX_PAGES)
                  in (OkResponse
                        \<lparr> bodyAttempts = allAttempts,
                          pagination =
                            \<lparr> pgOffset = initialOffset, pgLimit = limit, hasMore = reachedMax,
                              nextOffset = (if reachedMax then Some (initialOffset + limit) else None),
                              totalFetched = length allAttempts, pages = PAGES_TO_FETCH \<rparr>,
                          timeWindow =
                            \<lparr> windowStart = timeWindowStart, windowEnd = timeWindowEnd,
                              olderDataAvailable =
                                (beforeTimestamp request = None \<or> timeWindowStart > 0) \<rparr> \<rparr>,
                      map (\<lambda>currentOffset. (limit, currentOffset)) offsets))))"

text \<open>The pagination block of a 200 answer.\<close>

definition paginationOf :: "AttemptsBody Response \<Rightarrow> Pagination option" where
  "paginationOf r = (case r of OkResponse body \<Rightarrow> Some (pagination body) | ErrorResponse status e \<Rightarrow> None)"

text \<open>
  An upstream for examples, asked with \<open>limit\<close> 2: twelve attempts in all, so the pages at
  the offsets 0, 2, 4, 6, 8 and 10 are full.
\<close>

definition examplePages :: "int \<Rightarrow> int \<Rightarrow> Attempt list option" where
  "examplePages limit offset =
     (if offset = 0 then Some [exampleAttempt ''a1'' 99999999 ''m1'' False 200,
                               exampleAttempt ''a2'' 99999998 ''m1'' False 200]
      else if offset = 2 then Some [exampleAttempt ''a3'' 99999997 ''m2'' False 200,
                                    exampleAttempt ''a4'' 99999996 ''m2'' False 200]
      else if offset = 4 then Some [exampleAttempt ''a5'' 99999995 ''m3'' False 200,
                                    exampleAttempt ''a6'' 99999994 ''m3'' False 200]
      else if offset = 6 then Some [exampleAttempt ''a7'' 99999993 ''m4'' False 200,
                                    exampleAttempt ''a8'' 99999992 ''m4'' False 200]
      else if offset = 8 then Some [exampleAttempt ''a9'' 99999991 ''m5'' False 200,
                                    exampleAttempt ''a10'' 99999990 ''m5'' False 200]
      else if offset = 10 then Some [exampleAttempt ''a11'' 99999989 ''m6'' False 200,
                                     exampleAttempt ''a12'' 99999988 ''m6'' False 200]
      else Some [])"

subsection \<open>The payload decoder of the messages handler\<close>

text \<open>The value \<open>JSON.parse\<close> returns.\<close>

datatype json =
  JNull | JBool bool | JNumber rat | JString string | JArray "json list"
  | JObject "(string \<times> json) list"

fun truthy :: "json \<Rightarrow> bool" where
  "truthy JNull = False"
| "truthy (JBool b) = b"
| "truthy (JNumber n) = (n \<noteq> 0)"
| "truthy (JString s) = (s \<noteq> [])"
| "truthy (JArray xs) = True"
| "truthy (JObject kvs) = True"

definition nullPropertyError :: "string \<Rightarrow> string" where
  "nullPropertyError k =
     ''Cannot read properties of null (reading '' @ [CHR 0x27] @ k @ [CHR 0x27] @ '')''"

text \<open>
  Reading the property \<open>after\<close> or \<open>_id\<close> of a parsed value: a \<open>TypeError\<close> on \<open>null\<close>, the
  member of an object, and \<open>undefined\<close> (here \<open>None\<close>) on a missing member and on every
  number, string, boolean and array, none of which has a property of either name.
\<close>

fun getProp :: "json \<Rightarrow> string \<Rightarrow> string + json option" where
  "getProp JNull k = Inl (nullPropertyError k)"
| "getProp (JObject kvs) k = Inr (map_of kvs k)"
| "getProp v k = Inr None"

text \<open>
  The body of the \<open>try\<close> of part_001 140-146 for a truthy payload: \<open>Inl\<close> the message of the
  error thrown, \<open>Inr None\<close> when the condition \<open>payload.after && payload.after._id\<close> is falsy,
  \<open>Inr (Some v)\<close> the identifier stored. \<open>parse\<close> stands for \<open>JSON.parse\<close>: \<open>Inl\<close> the message
  of its \<open>SyntaxError\<close>.
\<close>

definition decodePayload :: "(string \<Rightarrow> string + json) \<Rightarrow> string \<Rightarrow> string + json option" where
  "decodePayload parse p =
     (case parse p of
        Inl e \<Rightarrow> Inl e
      | Inr payload \<Rightarrow>
          (case getProp payload ''after'' of
             Inl e \<Rightarrow> Inl e
           | Inr None \<Rightarrow> Inr None
           | Inr (Some after) \<Rightarrow>
               if truthy after then
                 (case getProp after ''_id'' of
                    Inl e \<Rightarrow> Inl e
                  | Inr None \<Rightarrow> Inr None
                  | Inr (Some v) \<Rightarrow> if truthy v then Inr (Some v) else Inr None)
               else Inr None))"

record WebhookMessage =
  msgId :: string
  msgCreatedAt :: int
  msgPayload :: "string option"

text \<open>\<open>message.payload.substring(0, 100) + '...'\<close>, part_001 151-153.\<close>

definition payloadSnippet :: "string \<Rightarrow> string" where
  "payloadSnippet p = take 100 p @ ''...''"

text \<open>
  Part_001 139-156: one pass of \<open>allMessages.forEach\<close> over the identifier map and the error
  list.
\<close>

definition decodeMessage ::
  "(string \<Rightarrow> string + json) \<Rightarrow> WebhookMessage
     \<Rightarrow> (string \<rightharpoonup> json) \<times> MessageWithError list \<Rightarrow> (string \<rightharpoonup> json) \<times> MessageWithError list" where
  "decodeMessage parse message acc =
     (case acc of (messageIdToDocumentId, messagesWithParsingErrors) \<Rightarrow>
        (case msgPayload message of
           None \<Rightarrow> acc
         | Some p \<Rightarrow>
             if p = [] then acc
             else (case decodePayload parse p of
                     Inr (Some v) \<Rightarrow> (messageIdToDocumentId(msgId message \<mapsto> v), messagesWithParsingErrors)
                   | Inr None \<Rightarrow> acc
                   | Inl e \<Rightarrow>
                       (messageIdToDocumentId,
                        messagesWithParsingErrors @
                          [\<lparr> errId = msgId message, errError = e,
                             errPayload = (if p \<noteq> [] then Some (payloadSnippet p) else None) \<rparr>]))))"

definition decodeMessages ::
  "(string \<Rightarrow> string + json) \<Rightarrow> WebhookMessage list \<Rightarrow> (string \<rightharpoonup> json) \<times> MessageWithError list" where
  "decodeMessages parse allMessages = fold (decodeMessage parse) allMessages (Map.empty, [])"

text \<open>
  Route.ts 470-484: the same loop in the typed handler, whose error entries have no
  \<open>payload\<close> member (lemma \<open>decodeMessagesTs_eq\<close>).
\<close>

definition decodeMessageTs ::
  "(string \<Rightarrow> string + json) \<Rightarrow> WebhookMessage
     \<Rightarrow> (string \<rightharpoonup> json) \<times> MessageWithError list \<Rightarrow> (string \<rightharpoonup> json) \<times> MessageWithError list" where
  "decodeMessageTs parse message acc =
     (case acc of (messageIdToDocumentId, messagesWithParsingErrors) \<Rightarrow>
        (case msgPayload message of
           None \<Rightarrow> acc
         | Some p \<Rightarrow>
             if p = [] then acc
             else (case decodePayload parse p of
                     Inr (Some v) \<Rightarrow> (messageIdToDocumentId(msgId message \<mapsto> v), messagesWithParsingErrors)
                   | Inr None \<Rightarrow> acc
                   | Inl e \<Rightarrow>
                       (messageIdToDocumentId,
                        messagesWithParsingErrors @
                          [\<lparr> errId = msgId message, errError = e, errPayload = None \<rparr>]))))"

definition decodeMessagesTs ::
  "(string \<Rightarrow> string + json) \<Rightarrow> WebhookMessage list \<Rightarrow> (string \<rightharpoonup> json) \<times> MessageWithError list" where
  "decodeMessagesTs parse allMessages = fold (decodeMessageTs parse) allMessages (Map.empty, [])"

record MessagesBody =
  documentIds :: "string \<rightharpoonup> json"
  messagesWithErrors :: "MessageWithError list"
  timestamp :: int
  messagesTimeWindow :: TimeWindow

definition MESSAGES_MAX_PAGES :: nat where
  "MESSAGES_MAX_PAGES = 3"

text \<open>The messages handler (part_001 3-185), with the same conventions as \<open>GET_attempts\<close>.\<close>

definition GET_messages ::
  "Request \<Rightarrow> codeUnits option \<Rightarrow> int \<Rightarrow> (int \<Rightarrow> int \<Rightarrow> WebhookMessage list option)
     \<Rightarrow> (string \<Rightarrow> string + json) \<Rightarrow> MessagesBody Response \<times> (int \<times> int) list" where
  "GET_messages request envToken now upstream parse =
     (if falsy (projectId request) \<or> falsy (webhookId request)
      then (ErrorResponse 400 missingParameters, [])
      else if falsy (map_option trim envToken)
      then (ErrorResponse 500 tokenNotDefined, [])
      else
        (let limit = 50;
             timeWindowEnd = (case beforeTimestamp request of Some b \<Rightarrow> b | None \<Rightarrow> now);
             timeWindowStart = (case beforeTimestamp request of
                                  Some b \<Rightarrow> b - 12 * hourMs | None \<Rightarrow> now - 6 * hourMs);
             offsets = map (\<lambda>i. int i * limit) [0..<MESSAGES_MAX_PAGES];
             results = map (\<lambda>currentOffset.
                         case upstream limit currentOffset of
                           None \<Rightarrow> []
                         | Some data \<Rightarrow>
                             filter (\<lambda>message. timeWindowStart \<le> msgCreatedAt message
                                               \<and> msgCreatedAt message \<le> timeWindowEnd) data)
                       offsets;
             allMessages = sort_key (\<lambda>m. - msgCreatedAt m) (concat results);
             decoded = decodeMessages parse allMessages
         in (OkResponse
               \<lparr> documentIds = fst decoded,
                 messagesWithErrors = snd decoded,
                 timestamp = now,
                 messagesTimeWindow =
                   \<lparr> windowStart = timeWindowStart, windowEnd = timeWindowEnd,
                     olderDataAvailable =
                       (beforeTimestamp request = None \<or> timeWindowStart > 0) \<rparr> \<rparr>,
             map (\<lambda>currentOffset. (limit, currentOffset)) offsets)))"

text \<open>A stand-in for \<open>JSON.parse\<close> on three payloads, for examples.\<close>

definition examplePayload :: string where
  \<open>examplePayload = ''{"after":{"_id":"doc1"}}''\<close>

definition exampleParse :: "string \<Rightarrow> string + json" where
  "exampleParse p =
     (if p = examplePayload then Inr (JObject [(''after'', JObject [(''_id'', JString ''doc1'')])])
      else if p = ''{}'' then Inr (JObject [])
      else if p = ''null'' then Inr JNull
      else Inl ''Unexpected token'')"

section \<open>Facts about the insertion-ordered map\<close>

lemma Map_get_set: "Map_get (Map_set m k v) k' = (if k' = k then Some v else Map_get m k')"
  by (induction m) auto

lemma Map_keys_dom: "set (Map_keys m) = {k. Map_get m k \<noteq> None}"
  by (induction m) (auto simp: Map_keys_def)

lemma Map_keys_set: "set (Map_keys (Map_set m k v)) = insert k (set (Map_keys m))"
  by (auto simp: Map_keys_dom Map_get_set)

lemma Map_set_distinct: "distinct (Map_keys m) \<Longrightarrow> distinct (Map_keys (Map_set m k v))"
proof (induction m)
  case Nil
  then show ?case by (simp add: Map_keys_def)
next
  case (Cons p m)
  have "set (map fst (Map_set m k v)) = insert k (set (map fst m))"
    using Map_keys_set[of m k v] by (simp add: Map_keys_def)
  with Cons show ?case by (cases p) (auto simp: Map_keys_def)
qed

lemma Map_has_keys: "Map_has m k \<longleftrightarrow> k \<in> set (Map_keys m)"
  by (induction m) (auto simp: Map_has_def Map_keys_def)

lemma Map_set_absent: "k \<notin> set (Map_keys m) \<Longrightarrow> Map_set m k v = m @ [(k, v)]"
  by (induction m) (auto simp: Map_keys_def)

lemma Map_get_in_set: "Map_get m k = Some v \<Longrightarrow> (k, v) \<in> set m"
  by (induction m) (auto split: if_splits)

lemma Map_get_distinct: "distinct (Map_keys m) \<Longrightarrow> (k, v) \<in> set m \<Longrightarrow> Map_get m k = Some v"
  by (induction m) (auto simp: Map_keys_def rev_image_eqI)


section \<open>The map of existing messages\<close>

lemma fold_Map_set_fresh:
  "distinct (map f xs) \<Longrightarrow> set (map f xs) \<inter> set (Map_keys m) = {} \<Longrightarrow>
   fold (\<lambda>x m. Map_set m (f x) x) xs m = m @ map (\<lambda>x. (f x, x)) xs"
proof (induction xs arbitrary: m)
  case Nil
  then show ?case by simp
next
  case (Cons x xs)
  have a: "Map_set m (f x) x = m @ [(f x, x)]"
    using Cons.prems by (intro Map_set_absent) auto
  have "fold (\<lambda>x m. Map_set m (f x) x) xs (m @ [(f x, x)]) = (m @ [(f x, x)]) @ map (\<lambda>x. (f x, x)) xs"
    using Cons.prems by (intro Cons.IH) (auto simp: Map_keys_def)
  with a show ?case by simp
qed

lemma messagesMap_of_distinct:
  "distinct (map messageId messages) \<Longrightarrow> messagesMap_of messages = map (\<lambda>m. (messageId m, m)) messages"
  unfolding messagesMap_of_def using fold_Map_set_fresh[of messageId messages "[]"]
  by (simp add: Map_keys_def)

lemma messagesMap_of_values:
  "distinct (map messageId messages) \<Longrightarrow> Map_values (messagesMap_of messages) = messages"
  by (simp add: messagesMap_of_distinct Map_values_def comp_def)

lemma messagesMap_of_keys:
  "distinct (map messageId messages) \<Longrightarrow> Map_keys (messagesMap_of messages) = map messageId messages"
  by (simp add: messagesMap_of_distinct Map_keys_def comp_def)



section \<open>Grouping a batch by messageId\<close>

lemma attemptsFor_Cons:
  "attemptsFor (a # as) k = (if attemptMessageId a = Some k \<and> k \<noteq> [] then a # attemptsFor as k else attemptsFor as k)"
  by (simp add: attemptsFor_def)

lemma groupAttempt_get:
  "Map_get (groupAttempt a M) k =
     (if attemptMessageId a = Some k \<and> k \<noteq> []
      then Some ((case Map_get M k of None \<Rightarrow> [] | Some as \<Rightarrow> as) @ [a])
      else Map_get M k)"
  by (auto simp: groupAttempt_def Map_get_set split: option.splits)

lemma fold_groupAttempt_get:
  "Map_get (fold groupAttempt B M) k =
     (case Map_get M k of
        None \<Rightarrow> (if attemptsFor B k = [] then None else Some (attemptsFor B k))
      | Some as \<Rightarrow> Some (as @ attemptsFor B k))"
proof (induction B arbitrary: M)
  case Nil
  then show ?case by (simp add: attemptsFor_def split: option.splits)
next
  case (Cons a B)
  show ?case
    by (simp add: Cons.IH groupAttempt_get attemptsFor_Cons split: option.splits)
qed

lemma groupAttempt_distinct: "distinct (Map_keys M) \<Longrightarrow> distinct (Map_keys (groupAttempt a M))"
  by (auto simp: groupAttempt_def Map_set_distinct split: option.splits)

lemma fold_groupAttempt_distinct:
  "distinct (Map_keys M) \<Longrightarrow> distinct (Map_keys (fold groupAttempt B M))"
  by (induction B arbitrary: M) (auto simp: groupAttempt_distinct)

lemma messageMap_of_distinct: "distinct (Map_keys (messageMap_of B))"
  unfolding messageMap_of_def by (rule fold_groupAttempt_distinct) (simp add: Map_keys_def)

lemma messageMap_of_get:
  "Map_get (messageMap_of B) k = (if attemptsFor B k = [] then None else Some (attemptsFor B k))"
  by (simp add: messageMap_of_def fold_groupAttempt_get)

lemma messageMap_of_set:
  "(k, g) \<in> set (messageMap_of B) \<longleftrightarrow> g = attemptsFor B k \<and> g \<noteq> []"
proof
  assume "(k, g) \<in> set (messageMap_of B)"
  then have "Map_get (messageMap_of B) k = Some g"
    by (rule Map_get_distinct[OF messageMap_of_distinct])
  then show "g = attemptsFor B k \<and> g \<noteq> []"
    by (auto simp: messageMap_of_get split: if_splits)
next
  assume "g = attemptsFor B k \<and> g \<noteq> []"
  then have "Map_get (messageMap_of B) k = Some g"
    by (auto simp: messageMap_of_get)
  then show "(k, g) \<in> set (messageMap_of B)"
    by (rule Map_get_in_set)
qed

lemma messageMap_of_nonempty: "(k, g) \<in> set (messageMap_of B) \<Longrightarrow> g \<noteq> [] \<and> k \<noteq> []"
  by (auto simp: messageMap_of_set attemptsFor_def)

section \<open>The aggregates derived from a batch\<close>

lemma find_distinct_key:
  "distinct (map f xs) \<Longrightarrow> (find (\<lambda>x. f x = k) xs = Some x) = (x \<in> set xs \<and> f x = k)"
  by (induction xs) (auto simp: rev_image_eqI)

lemma find_None_key: "(find (\<lambda>x. f x = k) xs = None) = (k \<notin> f ` set xs)"
  by (induction xs) auto

lemma findMessage_Some:
  "distinct (map messageId ms) \<Longrightarrow> (findMessage ms k = Some m) = (m \<in> set ms \<and> messageId m = k)"
  unfolding findMessage_def by (rule find_distinct_key)

lemma findMessage_None: "(findMessage ms k = None) = (k \<notin> messageId ` set ms)"
  unfolding findMessage_def by (rule find_None_key)

lemma distinct_map_sort_key: "distinct (map f (sort_key g xs)) = distinct (map f xs)"
proof -
  have "mset (map f (sort_key g xs)) = mset (map f xs)" by simp
  then show ?thesis by (rule mset_eq_imp_distinct_iff)
qed

lemma messageId_deriveMessage [simp]: "messageId (deriveMessage dm em k g) = k"
  by (simp add: deriveMessage_def Let_def)

lemma processedMessages_of_keys:
  "distinct (map messageId (processedMessages_of B dm pe))"
proof -
  have "map messageId (map (\<lambda>(mid, grp). deriveMessage dm (errorMap_of pe) mid grp) (messageMap_of B))
        = Map_keys (messageMap_of B)"
    by (simp add: Map_keys_def comp_def case_prod_beta)
  then show ?thesis
    unfolding processedMessages_of_def sortByNewestDesc_def distinct_map_sort_key
    by (simp add: messageMap_of_distinct)
qed

lemma processedMessages_of_set:
  "m \<in> set (processedMessages_of B dm pe) \<longleftrightarrow>
     (\<exists>k. attemptsFor B k \<noteq> [] \<and> m = deriveMessage dm (errorMap_of pe) k (attemptsFor B k))"
proof -
  have "m \<in> set (processedMessages_of B dm pe) \<longleftrightarrow>
        (\<exists>k g. (k, g) \<in> set (messageMap_of B) \<and> m = deriveMessage dm (errorMap_of pe) k g)"
    unfolding processedMessages_of_def sortByNewestDesc_def by (force simp: image_iff)
  then show ?thesis by (auto simp: messageMap_of_set)
qed

lemma processedMessages_of_find:
  "findMessage (processedMessages_of B dm pe) k =
     (if attemptsFor B k = [] then None
      else Some (deriveMessage dm (errorMap_of pe) k (attemptsFor B k)))"
proof (cases "attemptsFor B k = []")
  case True
  then have "k \<notin> messageId ` set (processedMessages_of B dm pe)"
    by (auto simp: processedMessages_of_set)
  with True show ?thesis by (simp add: findMessage_None)
next
  case False
  then show ?thesis
    by (simp add: findMessage_Some[OF processedMessages_of_keys] processedMessages_of_set) blast
qed

lemma sortByNewestDesc_sorted: "sorted (map (\<lambda>m. - newestAttempt m) (sortByNewestDesc ms))"
  by (simp add: sortByNewestDesc_def)

lemma sortByNewestDesc_id:
  "sorted (map (\<lambda>m. - newestAttempt m) ms) \<Longrightarrow> sortByNewestDesc ms = ms"
  unfolding sortByNewestDesc_def by (rule sort_key_id_if_sorted)



section \<open>One step of the merge, and the whole loop\<close>

lemma Map_set_subset: "set (Map_set m k v) \<subseteq> insert (k, v) (set m)"
  by (induction m) (auto split: if_splits)

lemma messageId_updateMessage [simp]: "messageId (updateMessage e n) = messageId e"
  by (simp add: updateMessage_def Let_def)

lemma mergeStep_get_other:
  "k \<noteq> messageId p \<Longrightarrow> Map_get (mergeStep S p M) k = Map_get M k"
  by (auto simp: mergeStep_def Map_get_set Let_def split: option.splits)

lemma mergeStep_get_same:
  "Map_get (mergeStep S p M) (messageId p) =
     (if Map_has (messagesMap_of S) (messageId p) then
        (case Map_get M (messageId p) of
           None \<Rightarrow> None
         | Some e \<Rightarrow> if newAttemptsOf S p \<noteq> [] then Some (updateMessage e (newAttemptsOf S p)) else Some e)
      else Some p)"
  by (auto simp: mergeStep_def Map_get_set Let_def newAttemptsOf_def split: option.splits)

lemma fold_mergeStep_get:
  "distinct (map messageId P) \<Longrightarrow>
   Map_get (fold (mergeStep S) P M) k =
     (case findMessage P k of None \<Rightarrow> Map_get M k | Some p \<Rightarrow> Map_get (mergeStep S p M) k)"
proof (induction P arbitrary: M)
  case Nil
  then show ?case by (simp add: findMessage_def)
next
  case (Cons x xs)
  have IH: "Map_get (fold (mergeStep S) xs (mergeStep S x M)) k =
     (case findMessage xs k of None \<Rightarrow> Map_get (mergeStep S x M) k
      | Some p \<Rightarrow> Map_get (mergeStep S p (mergeStep S x M)) k)"
    using Cons.prems by (intro Cons.IH) simp
  show ?case
  proof (cases "messageId x = k")
    case True
    then have "findMessage xs k = None"
      using Cons.prems by (auto simp: findMessage_None)
    with True IH show ?thesis by (simp add: findMessage_def)
  next
    case False
    have a: "findMessage (x # xs) k = findMessage xs k"
      using False by (simp add: findMessage_def)
    show ?thesis
    proof (cases "findMessage xs k")
      case None
      with IH a False show ?thesis by (simp add: mergeStep_get_other)
    next
      case (Some p)
      then have pk: "messageId p = k"
        unfolding findMessage_def by (auto dest: find_Some_iff[THEN iffD1])
      have "Map_get (mergeStep S x M) (messageId p) = Map_get M (messageId p)"
        using False pk by (simp add: mergeStep_get_other)
      then have "Map_get (mergeStep S p (mergeStep S x M)) (messageId p) = Map_get (mergeStep S p M) (messageId p)"
        by (simp only: mergeStep_get_same)
      with IH a Some pk show ?thesis by simp
    qed
  qed
qed

lemma keyed_find: "keyed M \<Longrightarrow> findMessage (Map_values M) k = Map_get M k"
  by (induction M) (auto simp: keyed_def findMessage_def Map_values_def)

lemma keyed_keys: "keyed M \<Longrightarrow> map messageId (Map_values M) = Map_keys M"
  by (induction M) (auto simp: keyed_def Map_values_def Map_keys_def)

lemma mergeStep_distinct: "distinct (Map_keys M) \<Longrightarrow> distinct (Map_keys (mergeStep S p M))"
  by (auto simp: mergeStep_def Let_def Map_set_distinct split: option.splits)

lemma keyed_Map_set: "keyed M \<Longrightarrow> messageId v = k \<Longrightarrow> keyed (Map_set M k v)"
  unfolding keyed_def using Map_set_subset[of M k v] by auto

lemma mergeStep_alt:
  "mergeStep S p M =
     (if Map_has (messagesMap_of S) (messageId p) then
        (case Map_get M (messageId p) of
           None \<Rightarrow> M
         | Some e \<Rightarrow> if newAttemptsOf S p \<noteq> []
                     then Map_set M (messageId p) (updateMessage e (newAttemptsOf S p)) else M)
      else Map_set M (messageId p) p)"
  by (simp add: mergeStep_def newAttemptsOf_def Let_def split: option.splits)

lemma mergeStep_keyed:
  assumes k: "keyed M"
  shows "keyed (mergeStep S p M)"
proof (cases "Map_has (messagesMap_of S) (messageId p)")
  case False
  then show ?thesis using k by (simp add: mergeStep_alt keyed_Map_set)
next
  case True
  show ?thesis
  proof (cases "Map_get M (messageId p)")
    case None
    with True k show ?thesis by (simp add: mergeStep_alt)
  next
    case (Some e)
    have "(messageId p, e) \<in> set M" using Some by (rule Map_get_in_set)
    with k have "messageId e = messageId p" by (auto simp: keyed_def)
    then have "keyed (Map_set M (messageId p) (updateMessage e (newAttemptsOf S p)))"
      using k by (intro keyed_Map_set) simp_all
    with True Some k show ?thesis by (simp add: mergeStep_alt)
  qed
qed

lemma fold_mergeStep_inv:
  "distinct (Map_keys M) \<Longrightarrow> keyed M \<Longrightarrow>
   distinct (Map_keys (fold (mergeStep S) P M)) \<and> keyed (fold (mergeStep S) P M)"
  by (induction P arbitrary: M) (auto simp: mergeStep_distinct mergeStep_keyed)

lemma messagesMap_of_inv: "distinct (Map_keys (messagesMap_of S)) \<and> keyed (messagesMap_of S)"
proof -
  have "distinct (Map_keys M) \<Longrightarrow> keyed M \<Longrightarrow>
        distinct (Map_keys (fold (\<lambda>msg m. Map_set m (messageId msg) msg) S M))
        \<and> keyed (fold (\<lambda>msg m. Map_set m (messageId msg) msg) S M)" for M
    by (induction S arbitrary: M) (auto simp: Map_set_distinct keyed_Map_set)
  from this[of "[]"] show ?thesis
    by (simp add: messagesMap_of_def Map_keys_def keyed_def)
qed

lemma findMessage_sortByNewestDesc:
  "distinct (map messageId ms) \<Longrightarrow> findMessage (sortByNewestDesc ms) k = findMessage ms k"
proof (cases "findMessage ms k")
  case None
  then have "k \<notin> messageId ` set ms" by (simp add: findMessage_None)
  then have "findMessage (sortByNewestDesc ms) k = None"
    by (simp add: findMessage_None sortByNewestDesc_def)
  with None show ?thesis by simp
next
  case (Some m)
  assume d: "distinct (map messageId ms)"
  then have d': "distinct (map messageId (sortByNewestDesc ms))"
    by (simp add: sortByNewestDesc_def distinct_map_sort_key)
  from Some d have "m \<in> set ms \<and> messageId m = k" by (simp add: findMessage_Some)
  then have "findMessage (sortByNewestDesc ms) k = Some m"
    using findMessage_Some[OF d', of k m] by (simp add: sortByNewestDesc_def)
  with Some show ?thesis by simp
qed

lemma mergeMessages_distinct: "distinct (map messageId (mergeMessages S P))"
proof -
  let ?M = "fold (mergeStep S) P (messagesMap_of S)"
  have inv: "distinct (Map_keys ?M) \<and> keyed ?M"
    using messagesMap_of_inv by (intro fold_mergeStep_inv) auto
  then show ?thesis
    by (simp add: mergeMessages_def sortByNewestDesc_def distinct_map_sort_key keyed_keys)
qed

lemma messagesMap_of_get:
  "distinct (map messageId S) \<Longrightarrow> Map_get (messagesMap_of S) k = findMessage S k"
  using keyed_find[of "messagesMap_of S" k] messagesMap_of_inv[of S]
  by (simp add: messagesMap_of_values)

lemma mergeMessages_find:
  assumes "distinct (map messageId S)" "distinct (map messageId P)"
  shows "findMessage (mergeMessages S P) k =
     (case findMessage P k of
        None \<Rightarrow> findMessage S k
      | Some p \<Rightarrow>
         (case findMessage S k of
            None \<Rightarrow> Some p
          | Some e \<Rightarrow> if newAttemptsOf S p \<noteq> [] then Some (updateMessage e (newAttemptsOf S p)) else Some e))"
proof -
  let ?M = "fold (mergeStep S) P (messagesMap_of S)"
  have inv: "distinct (Map_keys ?M) \<and> keyed ?M"
    using messagesMap_of_inv by (intro fold_mergeStep_inv) auto
  have "findMessage (mergeMessages S P) k = findMessage (Map_values ?M) k"
    unfolding mergeMessages_def using inv
    by (intro findMessage_sortByNewestDesc) (simp add: keyed_keys)
  also have "\<dots> = Map_get ?M k" using inv by (simp add: keyed_find)
  also have "\<dots> = (case findMessage P k of None \<Rightarrow> Map_get (messagesMap_of S) k
                    | Some p \<Rightarrow> Map_get (mergeStep S p (messagesMap_of S)) k)"
    by (rule fold_mergeStep_get[OF assms(2)])
  finally have main: "findMessage (mergeMessages S P) k =
     (case findMessage P k of None \<Rightarrow> Map_get (messagesMap_of S) k
                    | Some p \<Rightarrow> Map_get (mergeStep S p (messagesMap_of S)) k)" .
  show ?thesis
  proof (cases "findMessage P k")
    case None
    with main assms(1) show ?thesis by (simp add: messagesMap_of_get)
  next
    case (Some p)
    then have pk: "messageId p = k"
      by (simp add: findMessage_Some[OF assms(2)])
    have "Map_get (mergeStep S p (messagesMap_of S)) k =
       (case findMessage S k of
            None \<Rightarrow> Some p
          | Some e \<Rightarrow> if newAttemptsOf S p \<noteq> [] then Some (updateMessage e (newAttemptsOf S p)) else Some e)"
      using mergeStep_get_same[of S p "messagesMap_of S"] pk assms(1)
      by (auto simp: Map_has_def messagesMap_of_get split: option.splits)
    with main Some show ?thesis by simp
  qed
qed

section \<open>The result of one call, aggregate by aggregate\<close>

lemma attempts_deriveMessage [simp]: "attempts (deriveMessage dm em k g) = sortByCreatedAt g"
  by (simp add: deriveMessage_def Let_def)

lemma attempts_updateMessage [simp]:
  "attempts (updateMessage e n) = sortByCreatedAt (attempts e @ n)"
  by (simp add: updateMessage_def Let_def)

lemma set_sortByCreatedAt [simp]: "set (sortByCreatedAt as) = set as"
  by (simp add: sortByCreatedAt_def)

lemma mset_sortByCreatedAt [simp]: "mset (sortByCreatedAt as) = mset as"
  by (simp add: sortByCreatedAt_def)

lemma sortByCreatedAt_Nil [simp]: "(sortByCreatedAt as = []) = (as = [])"
proof -
  have "length (sortByCreatedAt as) = length as" by (simp add: sortByCreatedAt_def)
  then show ?thesis by (metis length_0_conv)
qed

lemma existingAttemptIds_iff:
  "x \<in> set (existingAttemptIds S) \<longleftrightarrow> (\<exists>m \<in> set S. x \<in> attemptId ` set (attempts m))"
  by (auto simp: existingAttemptIds_def)

lemma newAttemptsOf_deriveMessage:
  "newAttemptsOf S (deriveMessage dm em k (attemptsFor B k)) = freshAttempts S B k"
  by (simp add: newAttemptsOf_def freshAttempts_def)

lemma freshAttempts_Nil: "attemptsFor B k = [] \<Longrightarrow> freshAttempts S B k = []"
  by (simp add: freshAttempts_def sortByCreatedAt_def)

lemma processApiData_full [simp]:
  "processApiData S B dm pe False = processedMessages_of B dm pe"
  by (simp add: processApiData_def)

lemma processApiData_empty [simp]:
  "processApiData [] B dm pe inc = processedMessages_of B dm pe"
  by (simp add: processApiData_def)

lemma processApiData_incremental:
  "S \<noteq> [] \<Longrightarrow> processApiData S B dm pe True = mergeMessages S (processedMessages_of B dm pe)"
  by (simp add: processApiData_def)

lemma processApiData_find:
  assumes d: "distinct (map messageId S)"
  shows "findMessage (processApiData S B dm pe True) k =
     (case findMessage S k of
        None \<Rightarrow> (if attemptsFor B k = [] then None
                 else Some (deriveMessage dm (errorMap_of pe) k (attemptsFor B k)))
      | Some e \<Rightarrow> (if freshAttempts S B k = [] then Some e
                   else Some (updateMessage e (freshAttempts S B k))))"
proof (cases "S = []")
  case True
  have "findMessage [] k = None" by (simp add: findMessage_def)
  with True show ?thesis by (simp add: processedMessages_of_find)
next
  case False
  let ?P = "processedMessages_of B dm pe"
  have "findMessage (processApiData S B dm pe True) k = findMessage (mergeMessages S ?P) k"
    using False by (simp add: processApiData_incremental)
  also have "\<dots> = (case findMessage ?P k of
        None \<Rightarrow> findMessage S k
      | Some p \<Rightarrow>
         (case findMessage S k of
            None \<Rightarrow> Some p
          | Some e \<Rightarrow> if newAttemptsOf S p \<noteq> [] then Some (updateMessage e (newAttemptsOf S p)) else Some e))"
    by (rule mergeMessages_find[OF d processedMessages_of_keys])
  also have "\<dots> = (case findMessage S k of
        None \<Rightarrow> (if attemptsFor B k = [] then None
                 else Some (deriveMessage dm (errorMap_of pe) k (attemptsFor B k)))
      | Some e \<Rightarrow> (if freshAttempts S B k = [] then Some e
                   else Some (updateMessage e (freshAttempts S B k))))"
    by (simp add: processedMessages_of_find newAttemptsOf_deriveMessage freshAttempts_Nil
             split: option.splits)
  finally show ?thesis .
qed

lemma processApiData_distinct: "distinct (map messageId (processApiData S B dm pe inc))"
  by (simp add: processApiData_def mergeMessages_distinct processedMessages_of_keys Let_def)

lemma processApiData_sorted:
  "sorted (map (\<lambda>m. - newestAttempt m) (processApiData S B dm pe inc))"
  by (simp add: processApiData_def mergeMessages_def processedMessages_of_def
        sortByNewestDesc_sorted Let_def)

section \<open>The partial reads of the code are defined\<close>

lemma mergeStep_has: "Map_has M k \<Longrightarrow> Map_has (mergeStep S p M) k"
  by (auto simp: mergeStep_alt Map_has_def Map_get_set split: option.splits)

lemma combined_has_existing:
  "Map_has (messagesMap_of S) k \<Longrightarrow> Map_get (fold (mergeStep S) ps (messagesMap_of S)) k \<noteq> None"
proof -
  have "Map_has M k \<Longrightarrow> Map_has (fold (mergeStep S) ps M) k" for M
    by (induction ps arbitrary: M) (simp_all add: mergeStep_has)
  then show "Map_has (messagesMap_of S) k \<Longrightarrow> ?thesis" by (simp add: Map_has_def)
qed

section \<open>Where the aggregates of a merge come from\<close>

lemma messagesMap_of_subset: "snd ` set (messagesMap_of S) \<subseteq> set S"
proof -
  have "snd ` set (fold (\<lambda>msg m. Map_set m (messageId msg) msg) S M) \<subseteq> snd ` set M \<union> set S" for M
  proof (induction S arbitrary: M)
    case Nil
    then show ?case by simp
  next
    case (Cons x xs)
    have "snd ` set (Map_set M (messageId x) x) \<subseteq> insert x (snd ` set M)"
      using Map_set_subset[of M "messageId x" x] by force
    with Cons[of "Map_set M (messageId x) x"] show ?case by auto
  qed
  from this[of "[]"] show ?thesis by (simp add: messagesMap_of_def)
qed

lemma mergeMessages_cases:
  assumes dP: "distinct (map messageId P)" and m: "m \<in> set (mergeMessages S P)"
  shows "m \<in> set S \<or> m \<in> set P \<or>
         (\<exists>e \<in> set S. \<exists>p \<in> set P. messageId e = messageId p \<and> newAttemptsOf S p \<noteq> []
              \<and> m = updateMessage e (newAttemptsOf S p))"
proof -
  let ?I = "messagesMap_of S"
  let ?M = "fold (mergeStep S) P ?I"
  have inv: "distinct (Map_keys ?M) \<and> keyed ?M"
    using messagesMap_of_inv by (intro fold_mergeStep_inv) auto
  from m have "m \<in> snd ` set ?M"
    by (simp add: mergeMessages_def sortByNewestDesc_def Map_values_def)
  then obtain k where km: "(k, m) \<in> set ?M" by auto
  then have get: "Map_get ?M k = Some m" using inv by (intro Map_get_distinct) simp_all
  have from0: "e \<in> set S \<and> messageId e = k'" if "Map_get ?I k' = Some e" for e k'
  proof -
    have a: "(k', e) \<in> set ?I" using that by (rule Map_get_in_set)
    then have "e \<in> snd ` set ?I" by (rule image_eqI[rotated]) simp
    then have b: "e \<in> set S" by (rule subsetD[OF messagesMap_of_subset])
    have "keyed ?I" using messagesMap_of_inv[of S] by simp
    with a have "messageId e = k'" unfolding keyed_def by blast
    with b show ?thesis by simp
  qed
  show ?thesis
  proof (cases "findMessage P k")
    case None
    with get have "Map_get ?I k = Some m" by (simp add: fold_mergeStep_get[OF dP])
    then show ?thesis using from0 by blast
  next
    case (Some p)
    then have p: "p \<in> set P" "messageId p = k" by (simp_all add: findMessage_Some[OF dP])
    from get Some have g: "Map_get (mergeStep S p ?I) (messageId p) = Some m"
      using p by (simp add: fold_mergeStep_get[OF dP])
    show ?thesis
    proof (cases "Map_has ?I (messageId p)")
      case False
      with g have "m = p" by (simp add: mergeStep_get_same)
      with p show ?thesis by simp
    next
      case True
      then obtain e where e: "Map_get ?I (messageId p) = Some e"
        by (auto simp: Map_has_def)
      then have eS: "e \<in> set S" "messageId e = messageId p" using from0 by blast+
      show ?thesis
      proof (cases "newAttemptsOf S p = []")
        case True
        with g e \<open>Map_has ?I (messageId p)\<close> have "m = e" by (simp add: mergeStep_get_same)
        with eS show ?thesis by simp
      next
        case False
        with g e \<open>Map_has ?I (messageId p)\<close> have "m = updateMessage e (newAttemptsOf S p)"
          by (simp add: mergeStep_get_same)
        then have "\<exists>e \<in> set S. \<exists>p \<in> set P. messageId e = messageId p \<and> newAttemptsOf S p \<noteq> []
              \<and> m = updateMessage e (newAttemptsOf S p)"
          using eS p False by (intro bexI[of _ e] bexI[of _ p]) simp_all
        then show ?thesis by simp
      qed
    qed
  qed
qed

lemma processApiData_cases:
  assumes "m \<in> set (processApiData S B dm pe inc)"
  shows "m \<in> set S \<or>
         (\<exists>k. attemptsFor B k \<noteq> [] \<and> m = deriveMessage dm (errorMap_of pe) k (attemptsFor B k)) \<or>
         (\<exists>e \<in> set S. freshAttempts S B (messageId e) \<noteq> []
              \<and> m = updateMessage e (freshAttempts S B (messageId e)))"
proof (cases "inc \<and> S \<noteq> []")
  case False
  with assms have "m \<in> set (processedMessages_of B dm pe)" by (auto simp: processApiData_def)
  then show ?thesis by (auto simp: processedMessages_of_set)
next
  case True
  with assms have "m \<in> set (mergeMessages S (processedMessages_of B dm pe))"
    by (auto simp: processApiData_def)
  from mergeMessages_cases[OF processedMessages_of_keys this]
  show ?thesis
  proof (elim disjE bexE conjE)
    assume "m \<in> set S" then show ?thesis by simp
  next
    assume "m \<in> set (processedMessages_of B dm pe)"
    then show ?thesis by (auto simp: processedMessages_of_set)
  next
    fix e p
    assume e: "e \<in> set S" and p: "p \<in> set (processedMessages_of B dm pe)"
      and k: "messageId e = messageId p" and n: "newAttemptsOf S p \<noteq> []"
      and mm: "m = updateMessage e (newAttemptsOf S p)"
    from p obtain k' where p': "p = deriveMessage dm (errorMap_of pe) k' (attemptsFor B k')"
      by (auto simp: processedMessages_of_set)
    then have "messageId p = k'" by simp
    with k p' have "newAttemptsOf S p = freshAttempts S B (messageId e)"
      by (simp add: newAttemptsOf_deriveMessage)
    with e n mm show ?thesis by auto
  qed
qed

section \<open>Attribution: attempts without a messageId\<close>

lemma attemptsFor_member:
  "a \<in> set (attemptsFor B k) \<Longrightarrow> a \<in> set B \<and> attemptMessageId a = Some k \<and> k \<noteq> []"
  by (auto simp: attemptsFor_def split: if_splits)

lemma freshAttempts_member:
  "a \<in> set (freshAttempts S B k) \<Longrightarrow>
     a \<in> set (attemptsFor B k) \<and> attemptId a \<notin> set (existingAttemptIds S)"
  by (auto simp: freshAttempts_def)

lemma attributed_step:
  assumes "attributed S"
  shows "attributed (processApiData S B dm pe inc)"
  unfolding attributed_def
proof
  fix m
  assume "m \<in> set (processApiData S B dm pe inc)"
  then consider (old) "m \<in> set S"
    | (new) k where "attemptsFor B k \<noteq> []" "m = deriveMessage dm (errorMap_of pe) k (attemptsFor B k)"
    | (upd) e where "e \<in> set S" "m = updateMessage e (freshAttempts S B (messageId e))"
    using processApiData_cases by blast
  then show "messageId m \<noteq> [] \<and> (\<forall>a \<in> set (attempts m). attemptMessageId a = Some (messageId m))"
  proof cases
    case old
    with assms show ?thesis by (simp add: attributed_def)
  next
    case new
    then have "k \<noteq> []" by (auto simp: attemptsFor_def)
    with new show ?thesis by (auto dest: attemptsFor_member)
  next
    case upd
    with assms have "messageId e \<noteq> []" "\<forall>a \<in> set (attempts e). attemptMessageId a = Some (messageId e)"
      by (auto simp: attributed_def)
    with upd show ?thesis by (auto dest!: freshAttempts_member attemptsFor_member)
  qed
qed

text \<open>
  C9. Starting from a collection in which every aggregate has a non-empty key and only
  attempts carrying that key, every sequence of calls, full or incremental, ends in such a
  collection: an attempt whose \<open>messageId\<close> is absent or empty is in no aggregate, and no
  aggregate has the empty key. The function is total, so such attempts raise nothing.
\<close>

theorem unattributed_attempts_excluded:
  assumes "attributed S"
  shows "\<forall>m \<in> set (runCalls S calls).
           messageId m \<noteq> [] \<and>
           (\<forall>a \<in> set (attempts m). attemptMessageId a \<noteq> None \<and> attemptMessageId a \<noteq> Some [])"
proof -
  have "attributed (runCalls S calls)" using assms
  proof (induction calls arbitrary: S)
    case Nil
    then show ?case by simp
  next
    case (Cons c calls)
    obtain B dm pe inc where c: "c = (B, dm, pe, inc)" by (cases c) auto
    from Cons.prems have "attributed (processApiData S B dm pe inc)" by (rule attributed_step)
    then show ?case unfolding c by (simp add: Cons.IH)
  qed
  then show ?thesis by (auto simp: attributed_def)
qed

theorem unattributed_attempts_excluded_witness:
  "attributed [] \<and>
   map messageId (runCalls []
      [([exampleAttempt ''a1'' 1 ''m1'' False 200, exampleAttempt ''a2'' 2 [] False 200], Map.empty, [], False),
       ([(exampleAttempt ''a3'' 3 ''m1'' False 200)\<lparr>attemptMessageId := None\<rparr>,
         exampleAttempt ''a4'' 4 ''m2'' False 200], Map.empty, [], True)]) = [''m2'', ''m1''] \<and>
   list_all (\<lambda>m. messageId m \<noteq> [] \<and>
                 list_all (\<lambda>a. attemptMessageId a \<noteq> None \<and> attemptMessageId a \<noteq> Some []) (attempts m))
     (runCalls []
      [([exampleAttempt ''a1'' 1 ''m1'' False 200, exampleAttempt ''a2'' 2 [] False 200], Map.empty, [], False),
       ([(exampleAttempt ''a3'' 3 ''m1'' False 200)\<lparr>attemptMessageId := None\<rparr>,
         exampleAttempt ''a4'' 4 ''m2'' False 200], Map.empty, [], True)])"
proof -
  have h: "attributed []" by (simp add: attributed_def)
  have e: "map messageId (runCalls []
      [([exampleAttempt ''a1'' 1 ''m1'' False 200, exampleAttempt ''a2'' 2 [] False 200], Map.empty, [], False),
       ([(exampleAttempt ''a3'' 3 ''m1'' False 200)\<lparr>attemptMessageId := None\<rparr>,
         exampleAttempt ''a4'' 4 ''m2'' False 200], Map.empty, [], True)]) = [''m2'', ''m1'']"
    by code_simp
  show ?thesis
    using h e unattributed_attempts_excluded[OF h] unfolding list_all_iff by blast
qed

section \<open>Duplicate attempts\<close>

lemma distinct_ids_sortByCreatedAt:
  "distinct (map attemptId (sortByCreatedAt as)) = distinct (map attemptId as)"
  unfolding sortByCreatedAt_def by (rule distinct_map_sort_key)

lemma distinct_ids_attemptsFor:
  "distinct (map attemptId B) \<Longrightarrow> distinct (map attemptId (attemptsFor B k))"
  by (simp add: attemptsFor_def distinct_map_filter)

lemma distinct_ids_freshAttempts:
  "distinct (map attemptId B) \<Longrightarrow> distinct (map attemptId (freshAttempts S B k))"
  by (simp add: freshAttempts_def distinct_map_filter distinct_ids_sortByCreatedAt
        distinct_ids_attemptsFor)

lemma noDuplicateAttempts_step:
  assumes S: "noDuplicateAttempts S" and B: "distinct (map attemptId B)"
  shows "noDuplicateAttempts (processApiData S B dm pe inc)"
  unfolding noDuplicateAttempts_def
proof
  fix m
  assume "m \<in> set (processApiData S B dm pe inc)"
  then consider (old) "m \<in> set S"
    | (new) k where "m = deriveMessage dm (errorMap_of pe) k (attemptsFor B k)"
    | (upd) e where "e \<in> set S" "m = updateMessage e (freshAttempts S B (messageId e))"
    using processApiData_cases by blast
  then show "distinct (map attemptId (attempts m))"
  proof cases
    case old
    with S show ?thesis by (simp add: noDuplicateAttempts_def)
  next
    case new
    with B show ?thesis by (simp add: distinct_ids_sortByCreatedAt distinct_ids_attemptsFor)
  next
    case upd
    have 1: "distinct (map attemptId (attempts e))"
      using S upd by (simp add: noDuplicateAttempts_def)
    have 2: "distinct (map attemptId (freshAttempts S B (messageId e)))"
      using B by (rule distinct_ids_freshAttempts)
    have 3: "attemptId ` set (attempts e) \<inter> attemptId ` set (freshAttempts S B (messageId e)) = {}"
    proof -
      have "attemptId ` set (attempts e) \<subseteq> set (existingAttemptIds S)"
        using upd(1) by (force simp: existingAttemptIds_iff)
      moreover have "attemptId ` set (freshAttempts S B (messageId e)) \<inter> set (existingAttemptIds S) = {}"
        by (auto dest: freshAttempts_member)
      ultimately show ?thesis by blast
    qed
    from 1 2 3 show ?thesis
      unfolding upd(2) by (simp add: distinct_ids_sortByCreatedAt)
  qed
qed

text \<open>
  Against C4 as stated: a batch in which one id occurs twice is grouped as it is (lines
  373-382 look at the \<open>messageId\<close> only), and both copies become members of the aggregate.
\<close>

theorem duplicate_in_batch_counterexample:
  "\<not> noDuplicateAttempts
       (runCalls [] [([exampleAttempt ''a1'' 1 ''m1'' False 200, exampleAttempt ''a1'' 1 ''m1'' False 200],
                      Map.empty, [], False)])"
proof -
  have "map (\<lambda>m. map attemptId (attempts m))
          (runCalls [] [([exampleAttempt ''a1'' 1 ''m1'' False 200, exampleAttempt ''a1'' 1 ''m1'' False 200],
                      Map.empty, [], False)]) = [[''a1'', ''a1'']]"
    by code_simp
  then obtain m where "m \<in> set (runCalls [] [([exampleAttempt ''a1'' 1 ''m1'' False 200, exampleAttempt ''a1'' 1 ''m1'' False 200],
                      Map.empty, [], False)])" "map attemptId (attempts m) = [''a1'', ''a1'']"
    by (auto simp: map_eq_Cons_conv)
  then show ?thesis
    unfolding noDuplicateAttempts_def by force
qed

text \<open>
  C4, as the code has it. When no batch repeats an id, no aggregate ever holds two attempts
  with the same id, across any sequence of full and incremental calls: an attempt that
  arrives again in a later batch is dropped by its id (line 480).
\<close>

theorem no_duplicate_attempts:
  assumes "noDuplicateAttempts S"
    and "\<forall>(B, dm, pe, inc) \<in> set calls. distinct (map attemptId B)"
  shows "\<forall>m \<in> set (runCalls S calls). distinct (map attemptId (attempts m))"
proof -
  have "noDuplicateAttempts (runCalls S calls)" using assms
  proof (induction calls arbitrary: S)
    case Nil
    then show ?case by simp
  next
    case (Cons c calls)
    obtain B dm pe inc where c: "c = (B, dm, pe, inc)" by (cases c) auto
    from Cons.prems have "noDuplicateAttempts (processApiData S B dm pe inc)"
      unfolding c by (intro noDuplicateAttempts_step) auto
    then show ?case using Cons.prems(2) unfolding c by (simp add: Cons.IH)
  qed
  then show ?thesis by (simp add: noDuplicateAttempts_def)
qed

theorem no_duplicate_attempts_witness:
  "noDuplicateAttempts [] \<and>
   list_all (\<lambda>(B, dm, pe, inc). distinct (map attemptId B))
     [([exampleAttempt ''a1'' 1 ''m1'' False 200, exampleAttempt ''a2'' 2 ''m1'' True 500], Map.empty, [], False),
      ([exampleAttempt ''a2'' 2 ''m1'' True 500, exampleAttempt ''a3'' 3 ''m1'' False 200], Map.empty, [], True)] \<and>
   map (\<lambda>m. map attemptId (attempts m)) (runCalls []
     [([exampleAttempt ''a1'' 1 ''m1'' False 200, exampleAttempt ''a2'' 2 ''m1'' True 500], Map.empty, [], False),
      ([exampleAttempt ''a2'' 2 ''m1'' True 500, exampleAttempt ''a3'' 3 ''m1'' False 200], Map.empty, [], True)])
     = [[''a1'', ''a2'', ''a3'']] \<and>
   list_all (\<lambda>m. distinct (map attemptId (attempts m))) (runCalls []
     [([exampleAttempt ''a1'' 1 ''m1'' False 200, exampleAttempt ''a2'' 2 ''m1'' True 500], Map.empty, [], False),
      ([exampleAttempt ''a2'' 2 ''m1'' True 500, exampleAttempt ''a3'' 3 ''m1'' False 200], Map.empty, [], True)])"
proof -
  have h: "noDuplicateAttempts []" by (simp add: noDuplicateAttempts_def)
  have b: "\<forall>(B, dm, pe, inc) \<in> set
     [([exampleAttempt ''a1'' 1 ''m1'' False 200, exampleAttempt ''a2'' 2 ''m1'' True 500], Map.empty, [], False),
      ([exampleAttempt ''a2'' 2 ''m1'' True 500, exampleAttempt ''a3'' 3 ''m1'' False 200], Map.empty, [], True)].
        distinct (map attemptId B)"
    by (simp add: exampleAttempt_def)
  have e: "map (\<lambda>m. map attemptId (attempts m)) (runCalls []
     [([exampleAttempt ''a1'' 1 ''m1'' False 200, exampleAttempt ''a2'' 2 ''m1'' True 500], Map.empty, [], False),
      ([exampleAttempt ''a2'' 2 ''m1'' True 500, exampleAttempt ''a3'' 3 ''m1'' False 200], Map.empty, [], True)])
     = [[''a1'', ''a2'', ''a3'']]"
    by code_simp
  show ?thesis
    using h b e no_duplicate_attempts[OF h b] unfolding list_all_iff by blast
qed

section \<open>An existing aggregate that receives new attempts\<close>

lemma processApiData_updates:
  assumes "distinct (map messageId S)" "findMessage S k = Some e" "freshAttempts S B k \<noteq> []"
  shows "findMessage (processApiData S B dm pe True) k = Some (updateMessage e (freshAttempts S B k))"
  using assms by (simp add: processApiData_find)

lemma updateMessage_frame:
  "(updateMessage e n)\<lparr> attempts := attempts e, oldestAttempt := oldestAttempt e,
        newestAttempt := newestAttempt e, attemptCount := attemptCount e,
        successRate := successRate e, latestFailure := latestFailure e \<rparr> = e"
  by (simp add: updateMessage_def Let_def)

lemma updateMessage_recomputed:
  "attempts (updateMessage e n) = attempts (deriveMessage dm em k (attempts e @ n)) \<and>
   oldestAttempt (updateMessage e n) = oldestAttempt (deriveMessage dm em k (attempts e @ n)) \<and>
   newestAttempt (updateMessage e n) = newestAttempt (deriveMessage dm em k (attempts e @ n)) \<and>
   attemptCount (updateMessage e n) = attemptCount (deriveMessage dm em k (attempts e @ n)) \<and>
   successRate (updateMessage e n) = successRate (deriveMessage dm em k (attempts e @ n)) \<and>
   latestFailure (updateMessage e n) = latestFailure (deriveMessage dm em k (attempts e @ n))"
  by (simp add: updateMessage_def deriveMessage_def Let_def)

lemma updateMessage_carried:
  "documentId (updateMessage e n) = documentId e \<and>
   parsingError (updateMessage e n) = parsingError e \<and>
   largePayloadFailure (updateMessage e n) = largePayloadFailure e \<and>
   hookId (updateMessage e n) = hookId e"
  by (simp add: updateMessage_def Let_def)

text \<open>
  Against C3 as stated: the identifier map of the call has an identifier for the message,
  a full derivation over the joined attempts would set it, and the merged aggregate has none.
\<close>

theorem documentId_not_recomputed_counterexample:
  "findMessage (processedMessages_of [exampleAttempt ''a1'' 1 ''m1'' False 200] Map.empty []) ''m1''
     = Some (deriveMessage Map.empty [] ''m1'' [exampleAttempt ''a1'' 1 ''m1'' False 200]) \<and>
   freshAttempts (processedMessages_of [exampleAttempt ''a1'' 1 ''m1'' False 200] Map.empty [])
      [exampleAttempt ''a2'' 2 ''m1'' False 200] ''m1'' = [exampleAttempt ''a2'' 2 ''m1'' False 200] \<and>
   map documentId
     (processApiData (processedMessages_of [exampleAttempt ''a1'' 1 ''m1'' False 200] Map.empty [])
        [exampleAttempt ''a2'' 2 ''m1'' False 200] [''m1'' \<mapsto> ''doc1''] [] True) = [None] \<and>
   documentId (deriveMessage [''m1'' \<mapsto> ''doc1''] (errorMap_of []) ''m1''
     [exampleAttempt ''a1'' 1 ''m1'' False 200, exampleAttempt ''a2'' 2 ''m1'' False 200]) = Some ''doc1''"
  by code_simp

text \<open>
  C3, as the code has it. When an incremental call brings an existing aggregate at least one
  attempt with an id new to the state, the aggregate's attempts, \<open>oldestAttempt\<close>,
  \<open>newestAttempt\<close>, \<open>attemptCount\<close>, \<open>successRate\<close> and \<open>latestFailure\<close> are those that the
  derivation of a full load computes from the existing attempts joined with the new ones;
  \<open>documentId\<close> and \<open>parsingError\<close> are not recomputed from the identifier map and the
  error list of the call but kept.
\<close>

theorem merged_fields_recomputed:
  assumes "distinct (map messageId S)"
    and "findMessage S k = Some e"
    and "freshAttempts S B k \<noteq> []"
  shows "\<exists>m. findMessage (processApiData S B dm pe True) k = Some m \<and>
     attempts m = sortByCreatedAt (attempts e @ freshAttempts S B k) \<and>
     attempts m = attempts (deriveMessage dm (errorMap_of pe) k (attempts e @ freshAttempts S B k)) \<and>
     oldestAttempt m = oldestAttempt (deriveMessage dm (errorMap_of pe) k (attempts e @ freshAttempts S B k)) \<and>
     newestAttempt m = newestAttempt (deriveMessage dm (errorMap_of pe) k (attempts e @ freshAttempts S B k)) \<and>
     attemptCount m = attemptCount (deriveMessage dm (errorMap_of pe) k (attempts e @ freshAttempts S B k)) \<and>
     successRate m = successRate (deriveMessage dm (errorMap_of pe) k (attempts e @ freshAttempts S B k)) \<and>
     latestFailure m = latestFailure (deriveMessage dm (errorMap_of pe) k (attempts e @ freshAttempts S B k)) \<and>
     documentId m = documentId e \<and>
     parsingError m = parsingError e"
  using processApiData_updates[OF assms, of dm pe]
    updateMessage_recomputed[of e "freshAttempts S B k" dm "errorMap_of pe" k]
    updateMessage_carried[of e "freshAttempts S B k"]
  by simp

theorem merged_fields_recomputed_witness:
  "distinct (map messageId (processedMessages_of [exampleAttempt ''a1'' 1 ''m1'' False 200] Map.empty [])) \<and>
   findMessage (processedMessages_of [exampleAttempt ''a1'' 1 ''m1'' False 200] Map.empty []) ''m1''
     = Some (deriveMessage Map.empty [] ''m1'' [exampleAttempt ''a1'' 1 ''m1'' False 200]) \<and>
   freshAttempts (processedMessages_of [exampleAttempt ''a1'' 1 ''m1'' False 200] Map.empty [])
      [exampleAttempt ''a2'' 2 ''m1'' True 500] ''m1'' \<noteq> [] \<and>
   (\<exists>m. findMessage
          (processApiData (processedMessages_of [exampleAttempt ''a1'' 1 ''m1'' False 200] Map.empty [])
             [exampleAttempt ''a2'' 2 ''m1'' True 500] [''m1'' \<mapsto> ''doc1''] [] True) ''m1'' = Some m \<and>
        attemptCount m = 2 \<and> successRate m = 50 \<and> oldestAttempt m = 1 \<and> newestAttempt m = 2 \<and>
        latestFailure m = Some (exampleAttempt ''a2'' 2 ''m1'' True 500) \<and>
        documentId m = None)"
proof -
  let ?S = "processedMessages_of [exampleAttempt ''a1'' 1 ''m1'' False 200] Map.empty []"
  let ?e = "deriveMessage Map.empty [] ''m1'' [exampleAttempt ''a1'' 1 ''m1'' False 200]"
  let ?B = "[exampleAttempt ''a2'' 2 ''m1'' True 500]"
  have h1: "distinct (map messageId ?S)" by (rule processedMessages_of_keys)
  have h2: "findMessage ?S ''m1'' = Some ?e" by code_simp
  have f: "freshAttempts ?S ?B ''m1'' = ?B" by code_simp
  then have h3: "freshAttempts ?S ?B ''m1'' \<noteq> []" by simp
  have d: "deriveMessage [''m1'' \<mapsto> ''doc1''] (errorMap_of []) ''m1'' (attempts ?e @ ?B)
      = \<lparr> messageId = ''m1'', oldestAttempt = 1, newestAttempt = 2, attemptCount = 2,
          successRate = 50, hookId = ''h'', documentId = Some ''doc1'',
          attempts = [exampleAttempt ''a1'' 1 ''m1'' False 200, exampleAttempt ''a2'' 2 ''m1'' True 500],
          latestFailure = Some (exampleAttempt ''a2'' 2 ''m1'' True 500),
          parsingError = None, largePayloadFailure = Some False \<rparr>"
    by code_simp
  have c: "documentId ?e = None" by code_simp
  from merged_fields_recomputed[OF h1 h2 h3, of "[''m1'' \<mapsto> ''doc1'']" "[]"]
  obtain m where m: "findMessage (processApiData ?S ?B [''m1'' \<mapsto> ''doc1''] [] True) ''m1'' = Some m"
     "attemptCount m = attemptCount (deriveMessage [''m1'' \<mapsto> ''doc1''] (errorMap_of []) ''m1'' (attempts ?e @ freshAttempts ?S ?B ''m1''))"
     "successRate m = successRate (deriveMessage [''m1'' \<mapsto> ''doc1''] (errorMap_of []) ''m1'' (attempts ?e @ freshAttempts ?S ?B ''m1''))"
     "oldestAttempt m = oldestAttempt (deriveMessage [''m1'' \<mapsto> ''doc1''] (errorMap_of []) ''m1'' (attempts ?e @ freshAttempts ?S ?B ''m1''))"
     "newestAttempt m = newestAttempt (deriveMessage [''m1'' \<mapsto> ''doc1''] (errorMap_of []) ''m1'' (attempts ?e @ freshAttempts ?S ?B ''m1''))"
     "latestFailure m = latestFailure (deriveMessage [''m1'' \<mapsto> ''doc1''] (errorMap_of []) ''m1'' (attempts ?e @ freshAttempts ?S ?B ''m1''))"
     "documentId m = documentId ?e"
    by blast
  then have "attemptCount m = 2 \<and> successRate m = 50 \<and> oldestAttempt m = 1 \<and> newestAttempt m = 2 \<and>
        latestFailure m = Some (exampleAttempt ''a2'' 2 ''m1'' True 500) \<and> documentId m = None"
    unfolding f d c by simp
  with m(1) h1 h2 h3 show ?thesis by blast
qed

text \<open>
  C10. When an incremental call adds new attempts to an aggregate that already exists, the
  aggregate keeps its \<open>documentId\<close>, \<open>parsingError\<close>, \<open>largePayloadFailure\<close> and \<open>hookId\<close> (and
  its \<open>messageId\<close>), whatever the identifier map and the error list of the call hold and
  whichever attempt becomes the latest failure: setting the six updated fields back to their
  old values gives the old aggregate.
\<close>

theorem merged_fields_kept:
  assumes "distinct (map messageId S)"
    and "findMessage S k = Some e"
    and "freshAttempts S B k \<noteq> []"
  shows "\<exists>m. findMessage (processApiData S B dm pe True) k = Some m \<and>
     documentId m = documentId e \<and>
     parsingError m = parsingError e \<and>
     largePayloadFailure m = largePayloadFailure e \<and>
     hookId m = hookId e \<and>
     m\<lparr> attempts := attempts e, oldestAttempt := oldestAttempt e,
        newestAttempt := newestAttempt e, attemptCount := attemptCount e,
        successRate := successRate e, latestFailure := latestFailure e \<rparr> = e"
  using processApiData_updates[OF assms, of dm pe]
    updateMessage_carried[of e "freshAttempts S B k"]
    updateMessage_frame[of e "freshAttempts S B k"]
  by simp

theorem merged_fields_kept_witness:
  "distinct (map messageId (processedMessages_of [exampleAttempt ''a1'' 1 ''m1'' True 500] Map.empty [])) \<and>
   findMessage (processedMessages_of [exampleAttempt ''a1'' 1 ''m1'' True 500] Map.empty []) ''m1''
     = Some (deriveMessage Map.empty [] ''m1'' [exampleAttempt ''a1'' 1 ''m1'' True 500]) \<and>
   freshAttempts (processedMessages_of [exampleAttempt ''a1'' 1 ''m1'' True 500] Map.empty [])
      [(exampleAttempt ''a2'' 2 ''m1'' True 413)\<lparr>attemptHookId := ''h2''\<rparr>] ''m1'' \<noteq> [] \<and>
   (\<exists>m. findMessage
          (processApiData (processedMessages_of [exampleAttempt ''a1'' 1 ''m1'' True 500] Map.empty [])
             [(exampleAttempt ''a2'' 2 ''m1'' True 413)\<lparr>attemptHookId := ''h2''\<rparr>]
             [''m1'' \<mapsto> ''doc1'']
             [\<lparr>errId = ''m1'', errError = ''Unexpected token'', errPayload = None\<rparr>] True) ''m1'' = Some m \<and>
        documentId m = None \<and> parsingError m = None \<and> largePayloadFailure m = Some False \<and>
        hookId m = ''h'')"
proof -
  let ?S = "processedMessages_of [exampleAttempt ''a1'' 1 ''m1'' True 500] Map.empty []"
  let ?e = "deriveMessage Map.empty [] ''m1'' [exampleAttempt ''a1'' 1 ''m1'' True 500]"
  let ?B = "[(exampleAttempt ''a2'' 2 ''m1'' True 413)\<lparr>attemptHookId := ''h2''\<rparr>]"
  have h1: "distinct (map messageId ?S)" by (rule processedMessages_of_keys)
  have h2: "findMessage ?S ''m1'' = Some ?e" by code_simp
  have h3: "freshAttempts ?S ?B ''m1'' \<noteq> []" by code_simp
  have c: "documentId ?e = None \<and> parsingError ?e = None \<and> largePayloadFailure ?e = Some False \<and>
        hookId ?e = ''h''" by code_simp
  from merged_fields_kept[OF h1 h2 h3, of "[''m1'' \<mapsto> ''doc1'']"
      "[\<lparr>errId = ''m1'', errError = ''Unexpected token'', errPayload = None\<rparr>]"] c h1 h2 h3
  show ?thesis by (elim exE conjE) (intro conjI exI, simp_all)
qed

lemma full_load_large_payload_flag:
  assumes "m \<in> set (processApiData S B dm pe False)"
    and "latestFailure m = Some f" and "resultCode f = 413"
  shows "largePayloadFailure m = Some True"
proof -
  from assms(1) obtain k where "m = deriveMessage dm (errorMap_of pe) k (attemptsFor B k)"
    by (auto simp: processedMessages_of_set)
  with assms(2,3) show ?thesis
    by (simp add: deriveMessage_def Let_def isLargePayloadFailure_def)
qed

text \<open>
  C5 fails on the incremental path. A full load derives \<open>largePayloadFailure\<close> from the
  latest failure (lines 410-421, lemma \<open>full_load_large_payload_flag\<close>); the incremental
  update replaces \<open>latestFailure\<close> (lines 513-517) and leaves the flag as it was. Here the state holds a message whose only attempt
  succeeded, loading older data brings its failed attempt with result code 413: that
  attempt becomes the latest failure and the flag stays undefined.
\<close>

theorem large_payload_flag_stale:
  "map (\<lambda>m. (messageId m, map_option resultCode (latestFailure m), largePayloadFailure m))
     (runCalls []
        [([exampleAttempt ''a2'' 10 ''m1'' False 200], Map.empty, [], False),
         ([exampleAttempt ''a1'' 5 ''m1'' True 413], Map.empty, [], True)])
   = [(''m1'', Some 413, None)]"
  by code_simp

section \<open>The attempt ids a call leaves in the state\<close>

lemma findMessage_member:
  "findMessage ms k = Some m \<Longrightarrow> m \<in> set ms \<and> messageId m = k"
  unfolding findMessage_def by (auto simp: find_Some_iff)

lemma findMessage_of_member:
  "distinct (map messageId ms) \<Longrightarrow> m \<in> set ms \<Longrightarrow> findMessage ms (messageId m) = Some m"
  by (simp add: findMessage_Some)

lemma existingAttemptIds_monotone:
  assumes d: "distinct (map messageId S)"
  shows "set (existingAttemptIds S) \<subseteq> set (existingAttemptIds (processApiData S B dm pe True))"
proof
  fix x
  assume "x \<in> set (existingAttemptIds S)"
  then obtain m where m: "m \<in> set S" "x \<in> attemptId ` set (attempts m)"
    by (auto simp: existingAttemptIds_iff)
  have f: "findMessage S (messageId m) = Some m" using d m(1) by (rule findMessage_of_member)
  let ?m' = "if freshAttempts S B (messageId m) = [] then m
             else updateMessage m (freshAttempts S B (messageId m))"
  have "findMessage (processApiData S B dm pe True) (messageId m) = Some ?m'"
    using f by (simp add: processApiData_find[OF d])
  then have 1: "?m' \<in> set (processApiData S B dm pe True)" by (auto dest: findMessage_member)
  have 2: "x \<in> attemptId ` set (attempts ?m')" using m(2) by auto
  from 1 2 show "x \<in> set (existingAttemptIds (processApiData S B dm pe True))"
    unfolding existingAttemptIds_iff by (rule bexI[rotated])
qed

lemma existingAttemptIds_covers_batch:
  assumes d: "distinct (map messageId S)" and a: "a \<in> set (attemptsFor B k)"
  shows "attemptId a \<in> set (existingAttemptIds (processApiData S B dm pe True))"
proof (cases "attemptId a \<in> set (existingAttemptIds S)")
  case True
  then show ?thesis using existingAttemptIds_monotone[OF d] by blast
next
  case False
  let ?R = "processApiData S B dm pe True"
  from a have ne: "attemptsFor B k \<noteq> []" by auto
  have "\<exists>m. findMessage ?R k = Some m \<and> a \<in> set (attempts m)"
  proof (cases "findMessage S k")
    case None
    with ne have "findMessage ?R k = Some (deriveMessage dm (errorMap_of pe) k (attemptsFor B k))"
      by (simp add: processApiData_find[OF d])
    with a show ?thesis by simp
  next
    case (Some e)
    from a False have fr: "a \<in> set (freshAttempts S B k)" by (simp add: freshAttempts_def)
    then have "freshAttempts S B k \<noteq> []" by auto
    with Some have "findMessage ?R k = Some (updateMessage e (freshAttempts S B k))"
      by (simp add: processApiData_find[OF d])
    with fr show ?thesis by simp
  qed
  then obtain m where "m \<in> set ?R" "a \<in> set (attempts m)" by (auto dest: findMessage_member)
  then show ?thesis unfolding existingAttemptIds_iff by blast
qed


section \<open>Merging a batch again\<close>

lemma mergeStep_noop:
  "Map_has (messagesMap_of S) (messageId p) \<Longrightarrow> newAttemptsOf S p = [] \<Longrightarrow> mergeStep S p M = M"
  by (simp add: mergeStep_alt split: option.splits)

lemma mergeMessages_noop:
  assumes d: "distinct (map messageId S)"
    and s: "sorted (map (\<lambda>m. - newestAttempt m) S)"
    and P: "\<forall>p \<in> set P. messageId p \<in> messageId ` set S \<and> newAttemptsOf S p = []"
  shows "mergeMessages S P = S"
proof -
  have has: "Map_has (messagesMap_of S) k \<longleftrightarrow> k \<in> messageId ` set S" for k
    by (simp add: Map_has_keys messagesMap_of_keys[OF d])
  have "fold (mergeStep S) P M = M" for M
    using P by (induction P arbitrary: M) (simp_all add: mergeStep_noop has)
  then show ?thesis
    by (simp add: mergeMessages_def messagesMap_of_values[OF d] sortByNewestDesc_id[OF s])
qed

lemma processApiData_Nil:
  assumes d: "distinct (map messageId S)" and e: "processApiData S B dm pe True = []"
  shows "processedMessages_of B dm' pe' = []"
proof -
  have "attemptsFor B k = []" for k
  proof -
    have "findMessage (processApiData S B dm pe True) k = None" by (simp add: e findMessage_def)
    then show ?thesis
      by (simp add: processApiData_find[OF d] split: option.splits if_splits)
  qed
  then have "m \<notin> set (processedMessages_of B dm' pe')" for m
    by (simp add: processedMessages_of_set)
  then show ?thesis by (cases "processedMessages_of B dm' pe'") auto
qed

text \<open>
  C1. For a collection with one aggregate per \<open>messageId\<close> (which every result of the
  function is), merging a batch incrementally and then merging the same batch again, with
  any identifier map and error list, gives the collection of the first merge: the same
  aggregates, with every field, in the same order.
\<close>

theorem merge_idempotent:
  assumes "distinct (map messageId S)"
  shows "processApiData (processApiData S B dm pe True) B dm' pe' True = processApiData S B dm pe True"
proof (cases "processApiData S B dm pe True = []")
  case True
  then show ?thesis using processApiData_Nil[OF assms True, of dm' pe'] by simp
next
  case False
  let ?R = "processApiData S B dm pe True"
  let ?P = "processedMessages_of B dm' pe'"
  have dR: "distinct (map messageId ?R)" by (rule processApiData_distinct)
  have sR: "sorted (map (\<lambda>m. - newestAttempt m) ?R)" by (rule processApiData_sorted)
  have "\<forall>p \<in> set ?P. messageId p \<in> messageId ` set ?R \<and> newAttemptsOf ?R p = []"
  proof
    fix p
    assume "p \<in> set ?P"
    then obtain k where k: "attemptsFor B k \<noteq> []"
        "p = deriveMessage dm' (errorMap_of pe') k (attemptsFor B k)"
      by (auto simp: processedMessages_of_set)
    have "findMessage ?R k \<noteq> None"
      using k(1) by (simp add: processApiData_find[OF assms] split: option.splits)
    then have 1: "messageId p \<in> messageId ` set ?R"
      using k(2) by (simp add: findMessage_None)
    have "\<forall>a \<in> set (attemptsFor B k). attemptId a \<in> set (existingAttemptIds ?R)"
      using existingAttemptIds_covers_batch[OF assms] by blast
    then have "freshAttempts ?R B k = []"
      by (simp add: freshAttempts_def)
    then have 2: "newAttemptsOf ?R p = []"
      using k(2) by (simp add: newAttemptsOf_deriveMessage)
    from 1 2 show "messageId p \<in> messageId ` set ?R \<and> newAttemptsOf ?R p = []" ..
  qed
  then have "mergeMessages ?R ?P = ?R" by (rule mergeMessages_noop[OF dR sR])
  with False show ?thesis by (simp add: processApiData_incremental)
qed

theorem merge_idempotent_witness:
  "distinct (map messageId (processedMessages_of
       [exampleAttempt ''a1'' 1 ''m1'' False 200, exampleAttempt ''a2'' 2 ''m1'' False 200,
        exampleAttempt ''a3'' 3 ''m1'' True 500] Map.empty [])) \<and>
   map (\<lambda>m. (messageId m, attemptCount m, successRate m))
     (processApiData (processedMessages_of
       [exampleAttempt ''a1'' 1 ''m1'' False 200, exampleAttempt ''a2'' 2 ''m1'' False 200,
        exampleAttempt ''a3'' 3 ''m1'' True 500] Map.empty [])
       [exampleAttempt ''a4'' 4 ''m1'' False 200, exampleAttempt ''b1'' 5 ''m2'' False 200]
       Map.empty [] True) = [(''m2'', 1, 100), (''m1'', 4, 75)] \<and>
   processApiData
     (processApiData (processedMessages_of
       [exampleAttempt ''a1'' 1 ''m1'' False 200, exampleAttempt ''a2'' 2 ''m1'' False 200,
        exampleAttempt ''a3'' 3 ''m1'' True 500] Map.empty [])
       [exampleAttempt ''a4'' 4 ''m1'' False 200, exampleAttempt ''b1'' 5 ''m2'' False 200]
       Map.empty [] True)
     [exampleAttempt ''a4'' 4 ''m1'' False 200, exampleAttempt ''b1'' 5 ''m2'' False 200]
     [''m1'' \<mapsto> ''doc1''] [] True
   = processApiData (processedMessages_of
       [exampleAttempt ''a1'' 1 ''m1'' False 200, exampleAttempt ''a2'' 2 ''m1'' False 200,
        exampleAttempt ''a3'' 3 ''m1'' True 500] Map.empty [])
       [exampleAttempt ''a4'' 4 ''m1'' False 200, exampleAttempt ''b1'' 5 ''m2'' False 200]
       Map.empty [] True"
proof -
  let ?S = "processedMessages_of
       [exampleAttempt ''a1'' 1 ''m1'' False 200, exampleAttempt ''a2'' 2 ''m1'' False 200,
        exampleAttempt ''a3'' 3 ''m1'' True 500] Map.empty []"
  have h: "distinct (map messageId ?S)" by (rule processedMessages_of_keys)
  have e: "map (\<lambda>m. (messageId m, attemptCount m, successRate m))
     (processApiData ?S
       [exampleAttempt ''a4'' 4 ''m1'' False 200, exampleAttempt ''b1'' 5 ''m2'' False 200]
       Map.empty [] True) = [(''m2'', 1, 100), (''m1'', 4, 75)]"
    by code_simp
  show ?thesis
    using h e merge_idempotent[OF h, of
       "[exampleAttempt ''a4'' 4 ''m1'' False 200, exampleAttempt ''b1'' 5 ''m2'' False 200]"
       Map.empty "[]" "[''m1'' \<mapsto> ''doc1'']" "[]"]
    by (intro conjI)
qed

section \<open>What the route handlers answer\<close>

lemma GET_attempts_ok:
  assumes "\<not> falsy (projectId request)" "\<not> falsy (webhookId request)"
    "\<not> falsy (map_option trim envToken)"
  shows "\<exists>body. GET_attempts request envToken now upstream =
           (OkResponse body,
            map (\<lambda>i. (case limitParam request of None \<Rightarrow> 50 | Some n \<Rightarrow> min n 50,
                       (case offsetParam request of None \<Rightarrow> 0 | Some n \<Rightarrow> n)
                        + int i * (case limitParam request of None \<Rightarrow> 50 | Some n \<Rightarrow> min n 50)))
                [0..<PAGES_TO_FETCH])
         \<and> hasMore (pagination body) = (MAX_PAGES \<le> length [0..<PAGES_TO_FETCH])
         \<and> pages (pagination body) = PAGES_TO_FETCH"
  using assms by (simp add: GET_attempts_def Let_def comp_def)

lemma hasMore_never:
  "GET_attempts request envToken now upstream = (OkResponse body, sent) \<Longrightarrow>
     \<not> hasMore (pagination body) \<and> length sent = 5"
  by (auto simp: GET_attempts_def Let_def PAGES_TO_FETCH_def MAX_PAGES_def split: if_splits)

text \<open>
  C6 fails on every call. The handler sends \<open>PAGES_TO_FETCH = min(MAX_PAGES, 5)\<close>, that is
  five, page requests, all it is set to send, and then computes \<open>hasMore\<close> as
  \<open>offsets.length >= MAX_PAGES\<close>, five against ten: \<open>hasMore\<close> is false and \<open>nextOffset\<close> is
  \<open>null\<close> whatever the pages hold (lemma \<open>hasMore_never\<close>), although line 139 says that
  there might be more data. Here the handler is asked with \<open>limit\<close> 2, all five pages come
  back full and inside the time window, a sixth full page exists upstream at offset 10,
  and the answer reports ten attempts fetched, five pages, \<open>hasMore\<close> false and no next
  offset.
\<close>

theorem hasMore_false_on_full_pages:
  "map_prod paginationOf id
     (GET_attempts \<lparr>projectId = Some ''p1'', webhookId = Some ''w1'', offsetParam = None,
                    limitParam = Some 2, beforeTimestamp = None\<rparr>
        (Some (codeUnitsOf ''token'')) 100000000 examplePages)
   = (Some \<lparr>pgOffset = 0, pgLimit = 2, hasMore = False, nextOffset = None,
            totalFetched = 10, pages = 5\<rparr>,
      [(2, 0), (2, 2), (2, 4), (2, 6), (2, 8)])
   \<and> map_option length (examplePages 2 10) = Some 2"
proof -
  have offsets: "[0..<5] = [0, 1, 2, 3, 4::nat]"
    by (simp add: upt_rec)
  have token: "\<not> falsy (map_option trim (Some (codeUnitsOf ''token'')))"
    by (simp add: falsy_def trim_def isWhiteSpace_def codeUnitsOf_def)
  have sixth: "map_option length (examplePages 2 10) = Some 2"
    by (simp add: examplePages_def)
  from token sixth show ?thesis
    by (simp add: GET_attempts_def Let_def falsy_def offsets examplePages_def exampleAttempt_def
          hourMs_def paginationOf_def MAX_PAGES_def PAGES_TO_FETCH_def)
qed

text \<open>
  C8. In both handlers a request whose \<open>projectId\<close> or \<open>webhookId\<close> is absent or empty is
  answered with status 400 and no page request is sent upstream; the parameters are checked
  first, and with both present and the token absent or blank, the answer is status 500 with
  the token message, again with no request sent. The two answers differ.
\<close>

theorem missing_parameter_and_token_errors:
  "(falsy (projectId request) \<or> falsy (webhookId request) \<longrightarrow>
      GET_attempts request envToken now upstreamA = (ErrorResponse 400 missingParameters, []) \<and>
      GET_messages request envToken now upstreamM parse = (ErrorResponse 400 missingParameters, [])) \<and>
   (\<not> falsy (projectId request) \<and> \<not> falsy (webhookId request) \<and> falsy (map_option trim envToken) \<longrightarrow>
      GET_attempts request envToken now upstreamA = (ErrorResponse 500 tokenNotDefined, []) \<and>
      GET_messages request envToken now upstreamM parse = (ErrorResponse 500 tokenNotDefined, [])) \<and>
   (ErrorResponse 400 missingParameters :: 'a Response) \<noteq> ErrorResponse 500 tokenNotDefined"
  by (simp add: GET_attempts_def GET_messages_def Let_def)

theorem missing_parameter_and_token_errors_witness:
  "falsy (webhookId \<lparr>projectId = Some ''p1'', webhookId = Some [], offsetParam = None,
                      limitParam = None, beforeTimestamp = None\<rparr>) \<and>
   GET_attempts \<lparr>projectId = Some ''p1'', webhookId = Some [], offsetParam = None,
                  limitParam = None, beforeTimestamp = None\<rparr> (Some (codeUnitsOf ''token'')) 0 (\<lambda>limit offset. Some [])
     = (ErrorResponse 400 missingParameters, []) \<and>
   GET_messages \<lparr>projectId = Some ''p1'', webhookId = Some [], offsetParam = None,
                  limitParam = None, beforeTimestamp = None\<rparr> (Some (codeUnitsOf ''token'')) 0 (\<lambda>limit offset. Some [])
       exampleParse
     = (ErrorResponse 400 missingParameters, []) \<and>
   falsy (map_option trim (Some [160, 32])) \<and>
   GET_attempts \<lparr>projectId = Some ''p1'', webhookId = Some ''w1'', offsetParam = None,
                  limitParam = None, beforeTimestamp = None\<rparr> (Some [160, 32]) 0 (\<lambda>limit offset. Some [])
     = (ErrorResponse 500 tokenNotDefined, []) \<and>
   GET_messages \<lparr>projectId = Some ''p1'', webhookId = Some ''w1'', offsetParam = None,
                  limitParam = None, beforeTimestamp = None\<rparr> None 0 (\<lambda>limit offset. Some [])
       exampleParse
     = (ErrorResponse 500 tokenNotDefined, [])"
proof -
  let ?r1 = "\<lparr>projectId = Some ''p1'', webhookId = Some [], offsetParam = None,
                      limitParam = None, beforeTimestamp = None\<rparr>"
  let ?r2 = "\<lparr>projectId = Some ''p1'', webhookId = Some ''w1'', offsetParam = None,
                  limitParam = None, beforeTimestamp = None\<rparr>"
  have h1: "falsy (webhookId ?r1)" by (simp add: falsy_def)
  have h2: "\<not> falsy (projectId ?r2) \<and> \<not> falsy (webhookId ?r2)" by (simp add: falsy_def)
  have h3: "falsy (map_option trim (Some [160, 32]))" by (simp add: falsy_def trim_def isWhiteSpace_def)
  have h4: "falsy (map_option trim None)" by (simp add: falsy_def)
  note t1 = missing_parameter_and_token_errors[of ?r1 "Some (codeUnitsOf ''token'')" 0 "\<lambda>limit offset. Some []"
       "\<lambda>limit offset. Some []" exampleParse, THEN conjunct1, rule_format, OF disjI2, OF h1]
  note t2 = missing_parameter_and_token_errors[of ?r2 "Some [160, 32]" 0 "\<lambda>limit offset. Some []"
       "\<lambda>limit offset. Some []" exampleParse, THEN conjunct2, THEN conjunct1, rule_format,
       OF conjI[OF conjunct1[OF h2] conjI[OF conjunct2[OF h2] h3]]]
  note t3 = missing_parameter_and_token_errors[of ?r2 None 0 "\<lambda>limit offset. Some []"
       "\<lambda>limit offset. Some []" exampleParse, THEN conjunct2, THEN conjunct1, rule_format,
       OF conjI[OF conjunct1[OF h2] conjI[OF conjunct2[OF h2] h4]]]
  from h1 h3 t1 t2 t3 show ?thesis by (intro conjI) (erule conjunct1 conjunct2 | assumption)+
qed

section \<open>What the payload decoder records\<close>

lemma decodeMessage_acc:
  "decodeMessage parse m (ids, errs) =
     (ids ++ fst (decodeMessage parse m (Map.empty, [])),
      errs @ snd (decodeMessage parse m (Map.empty, [])))"
  by (simp add: decodeMessage_def split: option.splits sum.splits)

lemma fold_decodeMessage_acc:
  "fold (decodeMessage parse) zs (ids, errs) =
     (ids ++ fst (fold (decodeMessage parse) zs (Map.empty, [])),
      errs @ snd (fold (decodeMessage parse) zs (Map.empty, [])))"
proof (induction zs arbitrary: ids errs)
  case Nil
  then show ?case by simp
next
  case (Cons z zs)
  obtain di de where s0: "decodeMessage parse z (Map.empty, []) = (di, de)" by (cases "decodeMessage parse z (Map.empty, [])")
  have s: "decodeMessage parse z (ids, errs) = (ids ++ di, errs @ de)"
    using decodeMessage_acc[of parse z ids errs] s0 by simp
  obtain F E where f0: "fold (decodeMessage parse) zs (Map.empty, []) = (F, E)"
    by (cases "fold (decodeMessage parse) zs (Map.empty, [])")
  have A: "fold (decodeMessage parse) zs (ids ++ di, errs @ de) = ((ids ++ di) ++ F, (errs @ de) @ E)"
    using Cons.IH[of "ids ++ di" "errs @ de"] f0 by simp
  have B: "fold (decodeMessage parse) zs (di, de) = (di ++ F, de @ E)"
    using Cons.IH[of di de] f0 by simp
  show ?case by (simp add: s s0 A B)
qed

lemma decodeMessages_append:
  "decodeMessages parse (xs @ ys) =
     (fst (decodeMessages parse xs) ++ fst (decodeMessages parse ys),
      snd (decodeMessages parse xs) @ snd (decodeMessages parse ys))"
proof -
  obtain i e where xs: "fold (decodeMessage parse) xs (Map.empty, []) = (i, e)"
    by (cases "fold (decodeMessage parse) xs (Map.empty, [])")
  show ?thesis
    unfolding decodeMessages_def fold_append comp_def xs
    by (subst fold_decodeMessage_acc) simp
qed

lemma decodeMessages_single:
  "decodeMessages parse [m] = decodeMessage parse m (Map.empty, [])"
  by (simp add: decodeMessages_def)

lemma decodeMessages_dom: "dom (fst (decodeMessages parse zs)) \<subseteq> msgId ` set zs"
proof (induction zs rule: rev_induct)
  case Nil
  then show ?case by (simp add: decodeMessages_def)
next
  case (snoc z zs)
  have "dom (fst (decodeMessage parse z (Map.empty, []))) \<subseteq> {msgId z}"
    by (auto simp: decodeMessage_def split: option.splits sum.splits if_splits)
  with snoc show ?case
    by (auto simp: decodeMessages_append decodeMessages_single)
qed

lemma decodeMessageTs_step:
  "decodeMessageTs parse m (ids, map (\<lambda>e. e\<lparr>errPayload := None\<rparr>) errs) =
     (fst (decodeMessage parse m (ids, errs)),
      map (\<lambda>e. e\<lparr>errPayload := None\<rparr>) (snd (decodeMessage parse m (ids, errs))))"
  by (simp add: decodeMessageTs_def decodeMessage_def split: option.splits sum.splits)

lemma fold_decodeMessageTs:
  "fold (decodeMessageTs parse) zs (ids, map (\<lambda>e. e\<lparr>errPayload := None\<rparr>) errs) =
     (fst (fold (decodeMessage parse) zs (ids, errs)),
      map (\<lambda>e. e\<lparr>errPayload := None\<rparr>) (snd (fold (decodeMessage parse) zs (ids, errs))))"
proof (induction zs arbitrary: ids errs)
  case Nil
  then show ?case by simp
next
  case (Cons z zs)
  obtain i e where s: "decodeMessage parse z (ids, errs) = (i, e)"
    by (cases "decodeMessage parse z (ids, errs)")
  show ?case
    using decodeMessageTs_step[of parse z ids errs] Cons.IH[of i e] by (simp add: s)
qed

lemma decodeMessagesTs_eq:
  "decodeMessagesTs parse zs =
     (fst (decodeMessages parse zs),
      map (\<lambda>e. e\<lparr>errPayload := None\<rparr>) (snd (decodeMessages parse zs)))"
  using fold_decodeMessageTs[of parse zs Map.empty "[]"]
  by (simp add: decodeMessagesTs_def decodeMessages_def)

lemma decodeMessages_insert:
  "decodeMessages parse (xs @ m # ys) =
     (fst (decodeMessages parse xs) ++ fst (decodeMessage parse m (Map.empty, []))
        ++ fst (decodeMessages parse ys),
      snd (decodeMessages parse xs) @ snd (decodeMessage parse m (Map.empty, []))
        @ snd (decodeMessages parse ys))"
proof -
  have "decodeMessages parse (xs @ m # ys) = decodeMessages parse (xs @ ([m] @ ys))" by simp
  also have "\<dots> =
     (fst (decodeMessages parse xs) ++ (fst (decodeMessages parse [m]) ++ fst (decodeMessages parse ys)),
      snd (decodeMessages parse xs) @ (snd (decodeMessages parse [m]) @ snd (decodeMessages parse ys)))"
    unfolding decodeMessages_append[of parse xs "[m] @ ys"] decodeMessages_append[of parse "[m]" ys]
    by simp
  finally show ?thesis by (simp add: decodeMessages_single)
qed

lemma decodeMessage_failure:
  "msgPayload m = Some p \<Longrightarrow> p \<noteq> [] \<Longrightarrow> decodePayload parse p = Inl err \<Longrightarrow>
   decodeMessage parse m (Map.empty, []) =
     (Map.empty, [\<lparr> errId = msgId m, errError = err, errPayload = Some (payloadSnippet p) \<rparr>])"
  by (simp add: decodeMessage_def)

lemma decodeMessage_missing:
  "msgPayload m = Some p \<Longrightarrow> p \<noteq> [] \<Longrightarrow> decodePayload parse p = Inr None \<Longrightarrow>
   decodeMessage parse m (Map.empty, []) = (Map.empty, [])"
  by (simp add: decodeMessage_def)

lemma decodeMessages_absent:
  "k \<notin> msgId ` set zs \<Longrightarrow> fst (decodeMessages parse zs) k = None"
  using decodeMessages_dom[of parse zs] by blast

text \<open>
  Against C7 as stated, in both handlers (\<open>decodeMessages\<close> is the loop of part_001 139-156,
  \<open>decodeMessagesTs\<close> the loop of route.ts 470-484). A payload that parses to an object
  without \<open>after\<close> leaves no entry in the error list of either handler. A payload that
  does not parse leaves an entry with no payload member at all in the typed handler, and
  in the other handler a snippet that, for a payload of 150 characters, is 103 characters
  long.
\<close>

theorem missing_path_counterexample:
  "decodePayload exampleParse ''{}'' = Inr None \<and>
   snd (decodeMessages exampleParse
          [\<lparr> msgId = ''m1'', msgCreatedAt = 0, msgPayload = Some ''{}'' \<rparr>]) = [] \<and>
   snd (decodeMessagesTs exampleParse
          [\<lparr> msgId = ''m1'', msgCreatedAt = 0, msgPayload = Some ''{}'' \<rparr>]) = [] \<and>
   snd (decodeMessagesTs exampleParse
          [\<lparr> msgId = ''m2'', msgCreatedAt = 0, msgPayload = Some ''{not json'' \<rparr>])
     = [\<lparr> errId = ''m2'', errError = ''Unexpected token'', errPayload = None \<rparr>] \<and>
   map (map_option length \<circ> errPayload)
     (snd (decodeMessages exampleParse
          [\<lparr> msgId = ''m3'', msgCreatedAt = 0, msgPayload = Some (replicate 150 CHR ''x'') \<rparr>]))
     = [Some 103]"
  by code_simp

text \<open>
  C7, as the code has it. For a message with a non-empty payload, wherever it stands in the
  list:
  \<^item> if decoding throws (\<open>JSON.parse\<close> fails, or the parsed value is \<open>null\<close>), the message
    adds nothing to the identifier map and exactly one entry to the error list, at its
    place among the entries of the other messages. In the handler of part_001 the entry
    has the id, the error message and the first 100 characters of the payload followed by
    \<open>...\<close> (at most 103 characters); in the typed handler of route.ts it has the id and
    the error message and no payload member;
  \<^item> if the payload parses and \<open>after._id\<close> is missing or falsy, the message adds nothing to
    the map and no entry to the error list, in either handler;
  \<^item> in both cases and both handlers the map and the entries of the other messages are
    what they are without this message, and the id is absent from the map unless another
    message of the same id decodes.
\<close>

theorem payload_decoding_per_message:
  assumes "msgPayload m = Some p" and "p \<noteq> []"
  shows "(decodePayload parse p = Inl err \<longrightarrow>
            snd (decodeMessages parse (xs @ m # ys)) =
              snd (decodeMessages parse xs)
              @ [\<lparr> errId = msgId m, errError = err, errPayload = Some (take 100 p @ ''...'') \<rparr>]
              @ snd (decodeMessages parse ys)
            \<and> length (take 100 p @ ''...'') \<le> 103
            \<and> fst (decodeMessages parse (xs @ m # ys)) = fst (decodeMessages parse (xs @ ys))
            \<and> (msgId m \<notin> msgId ` set (xs @ ys) \<longrightarrow>
                 fst (decodeMessages parse (xs @ m # ys)) (msgId m) = None)
            \<and> snd (decodeMessagesTs parse (xs @ m # ys)) =
              snd (decodeMessagesTs parse xs)
              @ [\<lparr> errId = msgId m, errError = err, errPayload = None \<rparr>]
              @ snd (decodeMessagesTs parse ys)
            \<and> fst (decodeMessagesTs parse (xs @ m # ys)) = fst (decodeMessagesTs parse (xs @ ys))
            \<and> (msgId m \<notin> msgId ` set (xs @ ys) \<longrightarrow>
                 fst (decodeMessagesTs parse (xs @ m # ys)) (msgId m) = None))
       \<and> (decodePayload parse p = Inr None \<longrightarrow>
            snd (decodeMessages parse (xs @ m # ys)) =
              snd (decodeMessages parse xs) @ snd (decodeMessages parse ys)
            \<and> fst (decodeMessages parse (xs @ m # ys)) = fst (decodeMessages parse (xs @ ys))
            \<and> (msgId m \<notin> msgId ` set (xs @ ys) \<longrightarrow>
                 fst (decodeMessages parse (xs @ m # ys)) (msgId m) = None)
            \<and> snd (decodeMessagesTs parse (xs @ m # ys)) =
              snd (decodeMessagesTs parse xs) @ snd (decodeMessagesTs parse ys)
            \<and> fst (decodeMessagesTs parse (xs @ m # ys)) = fst (decodeMessagesTs parse (xs @ ys))
            \<and> (msgId m \<notin> msgId ` set (xs @ ys) \<longrightarrow>
                 fst (decodeMessagesTs parse (xs @ m # ys)) (msgId m) = None))"
proof -
  have absent: "msgId m \<notin> msgId ` set (xs @ ys) \<Longrightarrow>
      fst (decodeMessages parse (xs @ ys)) (msgId m) = None"
    by (rule decodeMessages_absent)
  have thrown: "snd (decodeMessages parse (xs @ m # ys)) =
              snd (decodeMessages parse xs)
              @ [\<lparr> errId = msgId m, errError = err, errPayload = Some (take 100 p @ ''...'') \<rparr>]
              @ snd (decodeMessages parse ys)
            \<and> length (take 100 p @ ''...'') \<le> 103
            \<and> fst (decodeMessages parse (xs @ m # ys)) = fst (decodeMessages parse (xs @ ys))
            \<and> (msgId m \<notin> msgId ` set (xs @ ys) \<longrightarrow>
                 fst (decodeMessages parse (xs @ m # ys)) (msgId m) = None)
            \<and> snd (decodeMessagesTs parse (xs @ m # ys)) =
              snd (decodeMessagesTs parse xs)
              @ [\<lparr> errId = msgId m, errError = err, errPayload = None \<rparr>]
              @ snd (decodeMessagesTs parse ys)
            \<and> fst (decodeMessagesTs parse (xs @ m # ys)) = fst (decodeMessagesTs parse (xs @ ys))
            \<and> (msgId m \<notin> msgId ` set (xs @ ys) \<longrightarrow>
                 fst (decodeMessagesTs parse (xs @ m # ys)) (msgId m) = None)"
    if f: "decodePayload parse p = Inl err"
  proof -
    note s = decodeMessage_failure[OF assms f]
    have a: "snd (decodeMessages parse (xs @ m # ys)) =
              snd (decodeMessages parse xs)
              @ [\<lparr> errId = msgId m, errError = err, errPayload = Some (take 100 p @ ''...'') \<rparr>]
              @ snd (decodeMessages parse ys)"
      by (simp add: decodeMessages_insert s payloadSnippet_def)
    have b: "length (take 100 p @ ''...'') \<le> 103" by simp
    have e: "fst (decodeMessages parse (xs @ m # ys)) = fst (decodeMessages parse (xs @ ys))"
      unfolding decodeMessages_insert decodeMessages_append[of parse xs ys] s by simp
    have c: "snd (decodeMessagesTs parse (xs @ m # ys)) =
              snd (decodeMessagesTs parse xs)
              @ [\<lparr> errId = msgId m, errError = err, errPayload = None \<rparr>]
              @ snd (decodeMessagesTs parse ys)"
      by (simp add: decodeMessagesTs_eq decodeMessages_insert s)
    have d: "fst (decodeMessagesTs parse (xs @ m # ys)) = fst (decodeMessagesTs parse (xs @ ys))"
      by (simp add: decodeMessagesTs_eq e)
    have g: "msgId m \<notin> msgId ` set (xs @ ys) \<longrightarrow>
                 fst (decodeMessages parse (xs @ m # ys)) (msgId m) = None"
      using absent by (simp only: e) simp
    have h: "msgId m \<notin> msgId ` set (xs @ ys) \<longrightarrow>
                 fst (decodeMessagesTs parse (xs @ m # ys)) (msgId m) = None"
      using absent by (simp add: decodeMessagesTs_eq e)
    from a b e g c d h show ?thesis by (intro conjI)
  qed
  have skipped: "snd (decodeMessages parse (xs @ m # ys)) =
              snd (decodeMessages parse xs) @ snd (decodeMessages parse ys)
            \<and> fst (decodeMessages parse (xs @ m # ys)) = fst (decodeMessages parse (xs @ ys))
            \<and> (msgId m \<notin> msgId ` set (xs @ ys) \<longrightarrow>
                 fst (decodeMessages parse (xs @ m # ys)) (msgId m) = None)
            \<and> snd (decodeMessagesTs parse (xs @ m # ys)) =
              snd (decodeMessagesTs parse xs) @ snd (decodeMessagesTs parse ys)
            \<and> fst (decodeMessagesTs parse (xs @ m # ys)) = fst (decodeMessagesTs parse (xs @ ys))
            \<and> (msgId m \<notin> msgId ` set (xs @ ys) \<longrightarrow>
                 fst (decodeMessagesTs parse (xs @ m # ys)) (msgId m) = None)"
    if f: "decodePayload parse p = Inr None"
  proof -
    note s = decodeMessage_missing[OF assms f]
    have a: "snd (decodeMessages parse (xs @ m # ys)) =
              snd (decodeMessages parse xs) @ snd (decodeMessages parse ys)"
      by (simp add: decodeMessages_insert s)
    have e: "fst (decodeMessages parse (xs @ m # ys)) = fst (decodeMessages parse (xs @ ys))"
      unfolding decodeMessages_insert decodeMessages_append[of parse xs ys] s by simp
    have c: "snd (decodeMessagesTs parse (xs @ m # ys)) =
              snd (decodeMessagesTs parse xs) @ snd (decodeMessagesTs parse ys)"
      by (simp add: decodeMessagesTs_eq decodeMessages_insert s)
    have d: "fst (decodeMessagesTs parse (xs @ m # ys)) = fst (decodeMessagesTs parse (xs @ ys))"
      by (simp add: decodeMessagesTs_eq e)
    have g: "msgId m \<notin> msgId ` set (xs @ ys) \<longrightarrow>
                 fst (decodeMessages parse (xs @ m # ys)) (msgId m) = None"
      using absent by (simp only: e) simp
    have h: "msgId m \<notin> msgId ` set (xs @ ys) \<longrightarrow>
                 fst (decodeMessagesTs parse (xs @ m # ys)) (msgId m) = None"
      using absent by (simp add: decodeMessagesTs_eq e)
    from a e g c d h show ?thesis by (intro conjI)
  qed
  show ?thesis by (rule conjI[OF impI[OF thrown] impI[OF skipped]])
qed

theorem payload_decoding_per_message_witness:
  "msgPayload \<lparr> msgId = ''m2'', msgCreatedAt = 2, msgPayload = Some ''{not json'' \<rparr> = Some ''{not json'' \<and>
   ''{not json'' \<noteq> [] \<and>
   decodePayload exampleParse ''{not json'' = Inl ''Unexpected token'' \<and>
   ''m2'' \<notin> msgId ` set ([\<lparr> msgId = ''m1'', msgCreatedAt = 1, msgPayload = Some examplePayload \<rparr>]
                         @ [\<lparr> msgId = ''m3'', msgCreatedAt = 3, msgPayload = Some ''null'' \<rparr>]) \<and>
   snd (decodeMessages exampleParse
          ([\<lparr> msgId = ''m1'', msgCreatedAt = 1, msgPayload = Some examplePayload \<rparr>]
           @ \<lparr> msgId = ''m2'', msgCreatedAt = 2, msgPayload = Some ''{not json'' \<rparr>
           # [\<lparr> msgId = ''m3'', msgCreatedAt = 3, msgPayload = Some ''null'' \<rparr>]))
     = snd (decodeMessages exampleParse [\<lparr> msgId = ''m1'', msgCreatedAt = 1, msgPayload = Some examplePayload \<rparr>])
       @ [\<lparr> errId = ''m2'', errError = ''Unexpected token'', errPayload = Some (take 100 ''{not json'' @ ''...'') \<rparr>]
       @ snd (decodeMessages exampleParse [\<lparr> msgId = ''m3'', msgCreatedAt = 3, msgPayload = Some ''null'' \<rparr>]) \<and>
   fst (decodeMessages exampleParse
          ([\<lparr> msgId = ''m1'', msgCreatedAt = 1, msgPayload = Some examplePayload \<rparr>]
           @ \<lparr> msgId = ''m2'', msgCreatedAt = 2, msgPayload = Some ''{not json'' \<rparr>
           # [\<lparr> msgId = ''m3'', msgCreatedAt = 3, msgPayload = Some ''null'' \<rparr>])) ''m2'' = None \<and>
   fst (decodeMessages exampleParse
          ([\<lparr> msgId = ''m1'', msgCreatedAt = 1, msgPayload = Some examplePayload \<rparr>]
           @ \<lparr> msgId = ''m2'', msgCreatedAt = 2, msgPayload = Some ''{not json'' \<rparr>
           # [\<lparr> msgId = ''m3'', msgCreatedAt = 3, msgPayload = Some ''null'' \<rparr>])) ''m1''
     = Some (JString ''doc1'') \<and>
   snd (decodeMessagesTs exampleParse
          ([\<lparr> msgId = ''m1'', msgCreatedAt = 1, msgPayload = Some examplePayload \<rparr>]
           @ \<lparr> msgId = ''m2'', msgCreatedAt = 2, msgPayload = Some ''{not json'' \<rparr>
           # [\<lparr> msgId = ''m3'', msgCreatedAt = 3, msgPayload = Some ''null'' \<rparr>]))
     = snd (decodeMessagesTs exampleParse [\<lparr> msgId = ''m1'', msgCreatedAt = 1, msgPayload = Some examplePayload \<rparr>])
       @ [\<lparr> errId = ''m2'', errError = ''Unexpected token'', errPayload = None \<rparr>]
       @ snd (decodeMessagesTs exampleParse [\<lparr> msgId = ''m3'', msgCreatedAt = 3, msgPayload = Some ''null'' \<rparr>]) \<and>
   fst (decodeMessagesTs exampleParse
          ([\<lparr> msgId = ''m1'', msgCreatedAt = 1, msgPayload = Some examplePayload \<rparr>]
           @ \<lparr> msgId = ''m2'', msgCreatedAt = 2, msgPayload = Some ''{not json'' \<rparr>
           # [\<lparr> msgId = ''m3'', msgCreatedAt = 3, msgPayload = Some ''null'' \<rparr>])) ''m2'' = None \<and>
   fst (decodeMessagesTs exampleParse
          ([\<lparr> msgId = ''m1'', msgCreatedAt = 1, msgPayload = Some examplePayload \<rparr>]
           @ \<lparr> msgId = ''m2'', msgCreatedAt = 2, msgPayload = Some ''{not json'' \<rparr>
           # [\<lparr> msgId = ''m3'', msgCreatedAt = 3, msgPayload = Some ''null'' \<rparr>])) ''m1''
     = Some (JString ''doc1'')"
proof -
  let ?m = "\<lparr> msgId = ''m2'', msgCreatedAt = 2, msgPayload = Some ''{not json'' \<rparr>"
  let ?xs = "[\<lparr> msgId = ''m1'', msgCreatedAt = 1, msgPayload = Some examplePayload \<rparr>]"
  let ?ys = "[\<lparr> msgId = ''m3'', msgCreatedAt = 3, msgPayload = Some ''null'' \<rparr>]"
  have h1: "msgPayload ?m = Some ''{not json''" by simp
  have h2: "''{not json'' \<noteq> []" by simp
  have h3: "decodePayload exampleParse ''{not json'' = Inl ''Unexpected token''"
    by (simp add: decodePayload_def exampleParse_def examplePayload_def)
  have h4: "msgId ?m \<notin> msgId ` set (?xs @ ?ys)" by simp
  have h5: "fst (decodeMessages exampleParse (?xs @ ?ys)) ''m1'' = Some (JString ''doc1'')"
    by (simp add: decodeMessages_def decodeMessage_def decodePayload_def exampleParse_def
          examplePayload_def nullPropertyError_def)
  have h6: "fst (decodeMessagesTs exampleParse (?xs @ ?ys)) ''m1'' = Some (JString ''doc1'')"
    by (simp add: decodeMessagesTs_def decodeMessageTs_def decodePayload_def exampleParse_def
          examplePayload_def nullPropertyError_def)
  note t = payload_decoding_per_message[OF h1 h2, of exampleParse "''Unexpected token''" ?xs ?ys,
      THEN conjunct1, rule_format, OF h3]
  note tA = t[THEN conjunct1]
  note tC = t[THEN conjunct2, THEN conjunct2, THEN conjunct1]
  note tD = t[THEN conjunct2, THEN conjunct2, THEN conjunct2, THEN conjunct1, rule_format, OF h4]
  note u = t[THEN conjunct2, THEN conjunct2, THEN conjunct2, THEN conjunct2]
  note uA = u[THEN conjunct1]
  note uC = u[THEN conjunct2, THEN conjunct1]
  note uD = u[THEN conjunct2, THEN conjunct2, rule_format, OF h4]
  have t1: "fst (decodeMessages exampleParse (?xs @ ?m # ?ys)) ''m2'' = None"
    using tD by simp
  have t2: "fst (decodeMessages exampleParse (?xs @ ?m # ?ys)) ''m1'' = Some (JString ''doc1'')"
    unfolding tC by (rule h5)
  have u1: "fst (decodeMessagesTs exampleParse (?xs @ ?m # ?ys)) ''m2'' = None"
    using uD by simp
  have u2: "fst (decodeMessagesTs exampleParse (?xs @ ?m # ?ys)) ''m1'' = Some (JString ''doc1'')"
    unfolding uC by (rule h6)
  have h4': "''m2'' \<notin> msgId ` set (?xs @ ?ys)" by simp
  have tA': "snd (decodeMessages exampleParse (?xs @ ?m # ?ys))
     = snd (decodeMessages exampleParse ?xs)
       @ [\<lparr> errId = ''m2'', errError = ''Unexpected token'', errPayload = Some (take 100 ''{not json'' @ ''...'') \<rparr>]
       @ snd (decodeMessages exampleParse ?ys)"
    using tA by simp
  have uA': "snd (decodeMessagesTs exampleParse (?xs @ ?m # ?ys))
     = snd (decodeMessagesTs exampleParse ?xs)
       @ [\<lparr> errId = ''m2'', errError = ''Unexpected token'', errPayload = None \<rparr>]
       @ snd (decodeMessagesTs exampleParse ?ys)"
    using uA by simp
  show ?thesis
    by (intro conjI) (rule h1 h2 h3 h4' tA' t1 t2 uA' u1 u2)+
qed

section \<open>The order of two merges\<close>




lemma sortByCreatedAt_idem [simp]: "sortByCreatedAt (sortByCreatedAt as) = sortByCreatedAt as"
  by (simp add: sortByCreatedAt_def sort_key_id_if_sorted)

























end
